theory Spec2Isabelle
  imports Complex_Main "HOL-Library.Word" "HOL-Library.Log_Nat"
begin

unbundle bit_operations_syntax

section \<open>Data model\<close>

text \<open>
  Symbols are the integer values of the character type \<open>CharT\<close>; a sequence
  (\<open>Range\<close>) is a list of symbols. Positions, lengths and the 64-bit
  \<open>Bound\<close> are the source's \<open>int64_t\<close>/\<open>size_t\<close> values, modelled by
  \<open>int\<close> and \<open>nat\<close>; the two places where an unsigned decrement can wrap
  are written out (\<open>size_t_dec\<close>). The \<open>Bound\<close> of the word path is a C
  \<open>int\<close>, a 32-bit word read as two's complement. The flag words are 64-bit
  machine words. Scores are IEEE binary64 values (section on doubles).
  Behaviour that C++ leaves undefined (signed overflow, a shift by a
  negative count) is an error value of its own.
\<close>

type_synonym symbol = int
type_synonym u64 = "64 word"

datatype error = AssertionFailed | OutOfRange | UndefinedBehaviour

record FlaggedCharsWord =
  P_flag :: u64
  T_flag :: u64

record FlaggedCharsMultiword =
  P_flags :: "u64 list"
  T_flags :: "u64 list"

record SearchBoundMask =
  words :: nat
  empty_words :: nat
  last_mask :: u64
  first_mask :: u64

text \<open>Sequencing of fallible computations: the first error ends the run.\<close>

definition ebind :: "error + 'a \<Rightarrow> ('a \<Rightarrow> error + 'b) \<Rightarrow> error + 'b" where
  "ebind m f = (case m of Inl e \<Rightarrow> Inl e | Inr x \<Rightarrow> f x)"

text \<open>\<open>size_t\<close> decrement: wraps at zero.\<close>

definition size_t_dec :: "nat \<Rightarrow> nat" where
  "size_t_dec n = (if n = 0 then 2 ^ 64 - 1 else n - 1)"

definition ceil_div :: "nat \<Rightarrow> nat \<Rightarrow> nat" where
  "ceil_div a b = a div b + (if a mod b = 0 then 0 else 1)"

section \<open>Bit intrinsics\<close>

text \<open>
  Modelled from the spec: the helpers of \<open>intrinsics.hpp\<close> are not part of
  the source file. \<open>blsi\<close> isolates the lowest set bit, \<open>blsr\<close> clears it,
  \<open>countr_zero\<close> is its position (the word size for 0), \<open>popcount\<close> counts
  the set bits, and \<open>bit_mask_lsb n\<close> is the mask of the \<open>n\<close> low-order
  bits (every bit once \<open>n\<close> reaches the word size). The mask is built by a
  shift by \<open>n\<close>, so a negative \<open>n\<close> is undefined behaviour.
\<close>

definition blsi :: "'a::len word \<Rightarrow> 'a word" where
  "blsi a = a AND (- a)"

definition blsr :: "'a::len word \<Rightarrow> 'a word" where
  "blsr a = a AND (a - 1)"

definition countr_zero :: "'a::len word \<Rightarrow> nat" where
  "countr_zero a = length (takeWhile (\<lambda>n. \<not> bit a n) [0..<LENGTH('a)])"

definition popcount :: "'a::len word \<Rightarrow> nat" where
  "popcount a = length (filter (bit a) [0..<LENGTH('a)])"

definition bit_mask_lsb :: "int \<Rightarrow> error + 'a::len word" where
  "bit_mask_lsb n =
     (if n < 0 then Inl UndefinedBehaviour
      else if n < int LENGTH('a) then Inr ((- 1) + push_bit (nat n) 1)
      else Inr (- 1))"

section \<open>Occurrence index\<close>

text \<open>
  Modelled from the spec: \<open>PatternMatchVector\<close> and
  \<open>BlockPatternMatchVector\<close> are external collaborators. The index of a
  reference sequence answers \<open>get(word, symbol)\<close> with the 64-bit mask whose
  bit \<open>i\<close> is set iff the symbol occurs at position \<open>64 * word + i\<close>. The
  word form has a single mask per symbol and ignores the word number; the
  block form has \<open>ceil_div (length P) 64\<close> words, and asking for a word
  beyond them reads out of range.
\<close>

type_synonym PM_Vec = "nat \<Rightarrow> symbol \<Rightarrow> error + u64"

fun occ_mask :: "symbol list \<Rightarrow> symbol \<Rightarrow> u64" where
  "occ_mask [] c = 0"
| "occ_mask (x # xs) c = (if x = c then 1 else 0) OR push_bit 1 (occ_mask xs c)"

definition PatternMatchVector :: "symbol list \<Rightarrow> PM_Vec" where
  "PatternMatchVector P = (\<lambda>word c. Inr (occ_mask P c))"

definition BlockPatternMatchVector :: "symbol list \<Rightarrow> PM_Vec" where
  "BlockPatternMatchVector P = (\<lambda>word c.
     if word < ceil_div (length P) 64 then Inr (occ_mask (drop (64 * word) P) c)
     else Inl OutOfRange)"

section \<open>Doubles\<close>

text \<open>
  A \<open>double\<close> is an IEEE binary64 value: a finite value (a rational on the
  binary64 grid), an infinity or a NaN. Every arithmetic result is the exact
  result rounded to nearest, ties to even (\<open>round_double\<close>): 53 significant
  bits, the subnormal grid \<open>2 powi (- 1074)\<close> below \<open>2 powi (- 1022)\<close>,
  and an infinity once the rounded value reaches \<open>2 powi 1024\<close>. The sign of a zero is not kept: the
  code never divides by a zero that could be negative.
\<close>

datatype double = Finite rat | PlusInf | MinusInf | NaN

text \<open>Rounding to the nearest integer, ties to even.\<close>

definition rne :: "rat \<Rightarrow> int" where
  "rne q = (let f = \<lfloor>q\<rfloor>; d = q - of_int f
            in if d < 1 / 2 then f else if d > 1 / 2 then f + 1 else if even f then f else f + 1)"

text \<open>For a positive \<open>x\<close>: the \<open>e\<close> with \<open>2 powi e \<le> x < 2 powi (e + 1)\<close>.\<close>

definition floor_log2 :: "rat \<Rightarrow> int" where
  "floor_log2 x = (if x \<ge> 1 then bitlen \<lfloor>x\<rfloor> - 1 else - bitlen (\<lceil>1 / x\<rceil> - 1))"

definition round_double :: "rat \<Rightarrow> double" where
  "round_double x =
     (if x = 0 then Finite 0
      else let a = \<bar>x\<bar>;
               e = max (floor_log2 a) (- 1022);
               u = 2 powi (e - 52);
               n = rne (a / u);
               r = of_int n * u
           in if e > 1023 \<or> (e = 1023 \<and> n = 2 ^ 53) then (if x > 0 then PlusInf else MinusInf)
              else Finite (if x > 0 then r else - r))"

text \<open>\<open>static_cast<double>\<close> of an integer.\<close>

definition double_of_int :: "int \<Rightarrow> double" where
  "double_of_int n = round_double (of_int n)"

fun d_add :: "double \<Rightarrow> double \<Rightarrow> double" where
  "d_add (Finite a) (Finite b) = round_double (a + b)"
| "d_add NaN y = NaN"
| "d_add x NaN = NaN"
| "d_add PlusInf MinusInf = NaN"
| "d_add MinusInf PlusInf = NaN"
| "d_add PlusInf y = PlusInf"
| "d_add MinusInf y = MinusInf"
| "d_add x PlusInf = PlusInf"
| "d_add x MinusInf = MinusInf"

fun d_sub :: "double \<Rightarrow> double \<Rightarrow> double" where
  "d_sub (Finite a) (Finite b) = round_double (a - b)"
| "d_sub NaN y = NaN"
| "d_sub x NaN = NaN"
| "d_sub PlusInf PlusInf = NaN"
| "d_sub MinusInf MinusInf = NaN"
| "d_sub PlusInf y = PlusInf"
| "d_sub MinusInf y = MinusInf"
| "d_sub x PlusInf = MinusInf"
| "d_sub x MinusInf = PlusInf"

fun d_div :: "double \<Rightarrow> double \<Rightarrow> double" where
  "d_div (Finite a) (Finite b) =
     (if b = 0 then (if a = 0 then NaN else if a > 0 then PlusInf else MinusInf)
      else round_double (a / b))"
| "d_div NaN y = NaN"
| "d_div x NaN = NaN"
| "d_div (Finite a) PlusInf = Finite 0"
| "d_div (Finite a) MinusInf = Finite 0"
| "d_div PlusInf (Finite b) = (if b \<ge> 0 then PlusInf else MinusInf)"
| "d_div MinusInf (Finite b) = (if b \<ge> 0 then MinusInf else PlusInf)"
| "d_div PlusInf PlusInf = NaN"
| "d_div PlusInf MinusInf = NaN"
| "d_div MinusInf PlusInf = NaN"
| "d_div MinusInf MinusInf = NaN"

text \<open>The comparison \<open>x >= y\<close>: false as soon as a NaN is involved.\<close>

fun d_ge :: "double \<Rightarrow> double \<Rightarrow> bool" where
  "d_ge (Finite a) (Finite b) = (a \<ge> b)"
| "d_ge NaN y = False"
| "d_ge x NaN = False"
| "d_ge PlusInf y = True"
| "d_ge (Finite a) MinusInf = True"
| "d_ge MinusInf MinusInf = True"
| "d_ge (Finite a) PlusInf = False"
| "d_ge MinusInf (Finite b) = False"
| "d_ge MinusInf PlusInf = False"

text \<open>The comparison \<open>x > y\<close>.\<close>

definition d_gt :: "double \<Rightarrow> double \<Rightarrow> bool" where
  "d_gt x y = (d_ge x y \<and> \<not> d_ge y x)"

section \<open>Score assembly and filters\<close>

definition jaro_calculate_similarity :: "int \<Rightarrow> int \<Rightarrow> nat \<Rightarrow> nat \<Rightarrow> double" where
  "jaro_calculate_similarity P_len T_len CommonChars Transpositions =
     (let Transpositions = Transpositions div 2;
          Sim = Finite 0;
          Sim = d_add Sim (d_div (double_of_int (int CommonChars)) (double_of_int P_len));
          Sim = d_add Sim (d_div (double_of_int (int CommonChars)) (double_of_int T_len));
          Sim = d_add Sim (d_div (d_sub (double_of_int (int CommonChars))
                                        (double_of_int (int Transpositions)))
                                 (double_of_int (int CommonChars)))
      in d_div Sim (Finite 3))"

definition jaro_length_filter :: "int \<Rightarrow> int \<Rightarrow> double \<Rightarrow> bool" where
  "jaro_length_filter P_len T_len score_cutoff =
     (if T_len = 0 \<or> P_len = 0 then False
      else let min_len = double_of_int (min P_len T_len);
               Sim = d_add (d_add (d_div min_len (double_of_int P_len))
                                  (d_div min_len (double_of_int T_len))) (Finite 1);
               Sim = d_div Sim (Finite 3)
           in d_ge Sim score_cutoff)"

definition jaro_common_char_filter :: "int \<Rightarrow> int \<Rightarrow> nat \<Rightarrow> double \<Rightarrow> bool" where
  "jaro_common_char_filter P_len T_len CommonChars score_cutoff =
     (if CommonChars = 0 then False
      else let Sim = Finite 0;
               Sim = d_add Sim (d_div (double_of_int (int CommonChars)) (double_of_int P_len));
               Sim = d_add Sim (d_div (double_of_int (int CommonChars)) (double_of_int T_len));
               Sim = d_add Sim (Finite 1);
               Sim = d_div Sim (Finite 3)
           in d_ge Sim score_cutoff)"

definition count_common_chars_word :: "FlaggedCharsWord \<Rightarrow> nat" where
  "count_common_chars_word flagged = popcount (P_flag flagged)"

definition count_common_chars_block :: "FlaggedCharsMultiword \<Rightarrow> nat" where
  "count_common_chars_block flagged =
     (if length (P_flags flagged) < length (T_flags flagged)
      then fold (\<lambda>flag CommonChars. CommonChars + popcount flag) (P_flags flagged) 0
      else fold (\<lambda>flag CommonChars. CommonChars + popcount flag) (T_flags flagged) 0)"

section \<open>Word-path flagger\<close>

text \<open>
  One iteration of either loop of \<open>flag_similar_characters_word\<close>; \<open>grow\<close>
  tells the first loop (\<open>(BoundMask << 1) | 1\<close>) from the second
  (\<open>BoundMask <<= 1\<close>). The loop state is the flag pair and the bound mask.
\<close>

definition flag_word_iter ::
  "PM_Vec \<Rightarrow> symbol list \<Rightarrow> bool \<Rightarrow> nat \<Rightarrow> FlaggedCharsWord \<times> u64 \<Rightarrow> error + FlaggedCharsWord \<times> u64" where
  "flag_word_iter PM T grow j s =
     (case s of (flagged, BoundMask) \<Rightarrow>
        ebind (PM 0 (T ! j)) (\<lambda>m.
          let PM_j = m AND BoundMask AND NOT (P_flag flagged);
              flagged = flagged\<lparr>P_flag := P_flag flagged OR blsi PM_j\<rparr>;
              flagged = flagged\<lparr>T_flag := T_flag flagged OR push_bit j (of_bool (PM_j \<noteq> 0))\<rparr>;
              BoundMask = (if grow then push_bit 1 BoundMask OR 1 else push_bit 1 BoundMask)
          in Inr (flagged, BoundMask)))"

fun flag_word_loop ::
  "PM_Vec \<Rightarrow> symbol list \<Rightarrow> bool \<Rightarrow> nat list \<Rightarrow> FlaggedCharsWord \<times> u64 \<Rightarrow> error + FlaggedCharsWord \<times> u64" where
  "flag_word_loop PM T grow [] s = Inr s"
| "flag_word_loop PM T grow (j # js) s =
     ebind (flag_word_iter PM T grow j s) (flag_word_loop PM T grow js)"

text \<open>
  \<open>Bound\<close> is the C \<open>int\<close> parameter; \<open>Bound + 1\<close> is computed in
  \<open>int\<close> and overflows at \<open>INT_MAX\<close>.
\<close>

definition flag_similar_characters_word ::
  "PM_Vec \<Rightarrow> symbol list \<Rightarrow> symbol list \<Rightarrow> 32 word \<Rightarrow> error + FlaggedCharsWord" where
  "flag_similar_characters_word PM P T Bound =
     (if \<not> (length P \<le> 64) then Inl AssertionFailed
      else if \<not> (length T \<le> 64) then Inl AssertionFailed
      else if \<not> (sint Bound > int (length P) \<or> int (length P) - sint Bound \<le> int (length T))
        then Inl AssertionFailed
      else if sint Bound + 1 > 2147483647 then Inl UndefinedBehaviour
      else
        ebind (bit_mask_lsb (sint Bound + 1)) (\<lambda>BoundMask.
        let flagged = \<lparr>P_flag = 0, T_flag = 0\<rparr>;
            n = nat (min (sint Bound) (int (length T)))
        in ebind (flag_word_loop PM T True [0..<n] (flagged, BoundMask)) (\<lambda>s.
           ebind (flag_word_loop PM T False [n..<length T] s) (\<lambda>s.
           Inr (fst s)))))"

section \<open>Block-path flagger\<close>

text \<open>Checked access to a flag vector: an index beyond the vector is out of range.\<close>

definition vec_get :: "u64 list \<Rightarrow> nat \<Rightarrow> error + u64" where
  "vec_get xs i = (if i < length xs then Inr (xs ! i) else Inl OutOfRange)"

definition vec_or :: "u64 list \<Rightarrow> nat \<Rightarrow> u64 \<Rightarrow> error + u64 list" where
  "vec_or xs i v = (if i < length xs then Inr (xs[i := xs ! i OR v]) else Inl OutOfRange)"

text \<open>\<open>PM.get(word, T_j) & mask & (~flagged.P_flag[word])\<close>\<close>

definition probe_word :: "PM_Vec \<Rightarrow> symbol \<Rightarrow> FlaggedCharsMultiword \<Rightarrow> nat \<Rightarrow> u64 \<Rightarrow> error + u64" where
  "probe_word PM T_j flagged word msk =
     ebind (PM word T_j) (\<lambda>m.
     ebind (vec_get (P_flags flagged) word) (\<lambda>pf.
     Inr (m AND msk AND NOT pf)))"

text \<open>\<open>flagged.P_flag[word] |= blsi(PM_j); flagged.T_flag[j_word] |= tbit << j_pos\<close>\<close>

definition mark_flags ::
  "FlaggedCharsMultiword \<Rightarrow> nat \<Rightarrow> u64 \<Rightarrow> nat \<Rightarrow> u64 \<Rightarrow> error + FlaggedCharsMultiword" where
  "mark_flags flagged word PM_j j tbit =
     ebind (vec_or (P_flags flagged) word (blsi PM_j)) (\<lambda>pf.
     ebind (vec_or (T_flags flagged) (j div 64) (push_bit (j mod 64) tbit)) (\<lambda>tf.
     Inr \<lparr>P_flags = pf, T_flags = tf\<rparr>))"

text \<open>
  The two scans over the interior words. Each ends either by returning from
  the step with the updated flags (\<open>Inl\<close>) or by falling through with the
  word reached (\<open>Inr\<close>). The first is the loop unrolled by four, which reads
  its four words before it tests them; the second is the plain loop.
\<close>

function scan_words4 ::
  "PM_Vec \<Rightarrow> symbol \<Rightarrow> FlaggedCharsMultiword \<Rightarrow> nat \<Rightarrow> nat \<Rightarrow> nat
     \<Rightarrow> error + (FlaggedCharsMultiword + nat)" where
  "scan_words4 PM T_j flagged j word stop =
     (if word + 3 < stop then
        ebind (probe_word PM T_j flagged word (- 1)) (\<lambda>PM_j0.
        ebind (probe_word PM T_j flagged (word + 1) (- 1)) (\<lambda>PM_j1.
        ebind (probe_word PM T_j flagged (word + 2) (- 1)) (\<lambda>PM_j2.
        ebind (probe_word PM T_j flagged (word + 3) (- 1)) (\<lambda>PM_j3.
          if PM_j0 \<noteq> 0 then ebind (mark_flags flagged word PM_j0 j 1) (\<lambda>f. Inr (Inl f))
          else if PM_j1 \<noteq> 0 then ebind (mark_flags flagged (word + 1) PM_j1 j 1) (\<lambda>f. Inr (Inl f))
          else if PM_j2 \<noteq> 0 then ebind (mark_flags flagged (word + 2) PM_j2 j 1) (\<lambda>f. Inr (Inl f))
          else if PM_j3 \<noteq> 0 then ebind (mark_flags flagged (word + 3) PM_j3 j 1) (\<lambda>f. Inr (Inl f))
          else scan_words4 PM T_j flagged j (word + 4) stop))))
      else Inr (Inr word))"
  by pat_completeness auto
termination
  by (relation "measure (\<lambda>(PM, T_j, flagged, j, word, stop). stop - word)") auto

declare scan_words4.simps [simp del]

function scan_words ::
  "PM_Vec \<Rightarrow> symbol \<Rightarrow> FlaggedCharsMultiword \<Rightarrow> nat \<Rightarrow> nat \<Rightarrow> nat
     \<Rightarrow> error + (FlaggedCharsMultiword + nat)" where
  "scan_words PM T_j flagged j word stop =
     (if word < stop then
        ebind (probe_word PM T_j flagged word (- 1)) (\<lambda>PM_j.
          if PM_j \<noteq> 0 then ebind (mark_flags flagged word PM_j j 1) (\<lambda>f. Inr (Inl f))
          else scan_words PM T_j flagged j (word + 1) stop)
      else Inr (Inr word))"
  by pat_completeness auto
termination
  by (relation "measure (\<lambda>(PM, T_j, flagged, j, word, stop). stop - word)") auto

declare scan_words.simps [simp del]

definition flag_similar_characters_step ::
  "PM_Vec \<Rightarrow> symbol \<Rightarrow> FlaggedCharsMultiword \<Rightarrow> nat \<Rightarrow> SearchBoundMask
     \<Rightarrow> error + FlaggedCharsMultiword" where
  "flag_similar_characters_step PM T_j flagged j BoundMask =
     (let word = empty_words BoundMask;
          last_word = word + words BoundMask
      in
      if words BoundMask = 1 then
        ebind (probe_word PM T_j flagged word (last_mask BoundMask AND first_mask BoundMask)) (\<lambda>PM_j.
          mark_flags flagged word PM_j j (of_bool (PM_j \<noteq> 0)))
      else
        ebind (if first_mask BoundMask \<noteq> 0 then
                 ebind (probe_word PM T_j flagged word (first_mask BoundMask)) (\<lambda>PM_j.
                   if PM_j \<noteq> 0 then ebind (mark_flags flagged word PM_j j 1) (\<lambda>f. Inr (Inl f))
                   else Inr (Inr (word + 1)))
               else Inr (Inr word)) (\<lambda>r.
        case r of Inl f \<Rightarrow> Inr f | Inr word \<Rightarrow>
        ebind (if 0 \<le> T_j \<and> T_j < 256
               then scan_words4 PM T_j flagged j word (size_t_dec last_word)
               else Inr (Inr word)) (\<lambda>r.
        case r of Inl f \<Rightarrow> Inr f | Inr word \<Rightarrow>
        ebind (scan_words PM T_j flagged j word (size_t_dec last_word)) (\<lambda>r.
        case r of Inl f \<Rightarrow> Inr f | Inr word \<Rightarrow>
          if last_mask BoundMask \<noteq> 0 then
            ebind (probe_word PM T_j flagged word (last_mask BoundMask)) (\<lambda>PM_j.
              mark_flags flagged word PM_j j (of_bool (PM_j \<noteq> 0)))
          else Inr flagged))))"

text \<open>The update of the window bookkeeping at the end of the loop body for position \<open>j\<close>.\<close>

definition advance_bound_mask :: "int \<Rightarrow> int \<Rightarrow> int \<Rightarrow> SearchBoundMask \<Rightarrow> SearchBoundMask" where
  "advance_bound_mask P_size Bound j BoundMask =
     (let BoundMask =
            (if j + Bound + 1 < P_size then
               let BoundMask = BoundMask\<lparr>last_mask := push_bit 1 (last_mask BoundMask) OR 1\<rparr>
               in if j + Bound + 2 < P_size \<and> last_mask BoundMask = NOT 0
                  then BoundMask\<lparr>last_mask := 0, words := words BoundMask + 1\<rparr>
                  else BoundMask
             else BoundMask)
      in if j \<ge> Bound then
           let BoundMask = BoundMask\<lparr>first_mask := push_bit 1 (first_mask BoundMask)\<rparr>
           in if first_mask BoundMask = 0
              then BoundMask\<lparr>first_mask := NOT 0,
                             words := size_t_dec (words BoundMask),
                             empty_words := empty_words BoundMask + 1\<rparr>
              else BoundMask
         else BoundMask)"

fun flag_block_loop ::
  "PM_Vec \<Rightarrow> symbol list \<Rightarrow> symbol list \<Rightarrow> int \<Rightarrow> nat list
     \<Rightarrow> FlaggedCharsMultiword \<times> SearchBoundMask
     \<Rightarrow> error + FlaggedCharsMultiword \<times> SearchBoundMask" where
  "flag_block_loop PM P T Bound [] s = Inr s"
| "flag_block_loop PM P T Bound (j # js) s =
     (case s of (flagged, BoundMask) \<Rightarrow>
        ebind (flag_similar_characters_step PM (T ! j) flagged j BoundMask) (\<lambda>flagged.
          flag_block_loop PM P T Bound js
            (flagged, advance_bound_mask (int (length P)) Bound (int j) BoundMask)))"

definition flag_similar_characters_block ::
  "PM_Vec \<Rightarrow> symbol list \<Rightarrow> symbol list \<Rightarrow> int \<Rightarrow> error + FlaggedCharsMultiword" where
  "flag_similar_characters_block PM P T Bound =
     (if \<not> (length P > 64 \<or> length T > 64) then Inl AssertionFailed
      else if \<not> (Bound > int (length P) \<or> int (length P) - Bound \<le> int (length T))
        then Inl AssertionFailed
      else if \<not> (Bound \<ge> 31) then Inl AssertionFailed
      else
        let flagged = \<lparr>P_flags = replicate (ceil_div (length P) 64) 0,
                       T_flags = replicate (ceil_div (length T) 64) 0\<rparr>;
            start_range = nat (min (Bound + 1) (int (length P)));
            BoundMask = \<lparr>words = 1 + start_range div 64,
                         empty_words = 0,
                         last_mask = push_bit (start_range mod 64) 1 - 1,
                         first_mask = NOT 0\<rparr>
        in ebind (flag_block_loop PM P T Bound [0..<length T] (flagged, BoundMask)) (\<lambda>s.
           Inr (fst s)))"

section \<open>Transposition counters\<close>

lemma blsr_less: "a \<noteq> 0 \<Longrightarrow> unat (blsr a) < unat a"
proof -
  assume "a \<noteq> 0"
  then have "a - 1 < a"
    by (simp add: word_less_nat_alt unat_minus_one unat_gt_0)
  moreover have "blsr a \<le> a - 1"
    unfolding blsr_def by (rule word_and_le1)
  ultimately show ?thesis
    by (simp add: word_less_nat_alt word_le_nat_alt)
qed

function count_transpositions_word_loop ::
  "PM_Vec \<Rightarrow> symbol list \<Rightarrow> u64 \<Rightarrow> u64 \<Rightarrow> nat \<Rightarrow> error + nat" where
  "count_transpositions_word_loop PM T PFlag TFlag Transpositions =
     (if TFlag \<noteq> 0 then
        let PatternFlagMask = blsi PFlag;
            i = countr_zero TFlag
        in if i < length T then
             ebind (PM 0 (T ! i)) (\<lambda>m.
               count_transpositions_word_loop PM T (PFlag XOR PatternFlagMask) (blsr TFlag)
                 (Transpositions + of_bool (m AND PatternFlagMask = 0)))
           else Inl OutOfRange
      else Inr Transpositions)"
  by pat_completeness auto
termination
  by (relation "measure (\<lambda>(PM, T, PFlag, TFlag, Transpositions). unat TFlag)")
     (auto simp: blsr_less)

declare count_transpositions_word_loop.simps [simp del]

definition count_transpositions_word :: "PM_Vec \<Rightarrow> symbol list \<Rightarrow> FlaggedCharsWord \<Rightarrow> error + nat" where
  "count_transpositions_word PM T flagged =
     count_transpositions_word_loop PM T (P_flag flagged) (T_flag flagged) 0"

text \<open>\<open>while (!flag) { word++; flag = flags[word]; }\<close>\<close>

function skip_empty_words :: "u64 list \<Rightarrow> nat \<Rightarrow> u64 \<Rightarrow> error + nat \<times> u64" where
  "skip_empty_words flags word flag =
     (if flag = 0 then
        (if word + 1 < length flags then skip_empty_words flags (word + 1) (flags ! (word + 1))
         else Inl OutOfRange)
      else Inr (word, flag))"
  by pat_completeness auto
termination
  by (relation "measure (\<lambda>(flags, word, flag). length flags - word)") auto

declare skip_empty_words.simps [simp del]

text \<open>
  The inner loop \<open>while (TFlag)\<close> of \<open>count_transpositions_block\<close>, for
  the text word \<open>TextWord\<close> (so \<open>T_first\<close> points at \<open>64 * TextWord\<close>).
\<close>

function count_transpositions_block_inner ::
  "PM_Vec \<Rightarrow> symbol list \<Rightarrow> FlaggedCharsMultiword \<Rightarrow> nat \<Rightarrow> u64 \<Rightarrow> nat \<Rightarrow> u64 \<Rightarrow> nat \<Rightarrow> nat
     \<Rightarrow> error + nat \<times> u64 \<times> nat \<times> nat" where
  "count_transpositions_block_inner PM T flagged TextWord TFlag PatternWord PFlag
       Transpositions FlaggedChars =
     (if TFlag \<noteq> 0 then
        (case skip_empty_words (P_flags flagged) PatternWord PFlag of
           Inl e \<Rightarrow> Inl e
         | Inr (PatternWord, PFlag) \<Rightarrow>
             let PatternFlagMask = blsi PFlag;
                 i = 64 * TextWord + countr_zero TFlag
             in if i < length T then
                  (case PM PatternWord (T ! i) of
                     Inl e \<Rightarrow> Inl e
                   | Inr m \<Rightarrow>
                       count_transpositions_block_inner PM T flagged TextWord (blsr TFlag)
                         PatternWord (PFlag XOR PatternFlagMask)
                         (Transpositions + of_bool (m AND PatternFlagMask = 0))
                         (size_t_dec FlaggedChars))
                else Inl OutOfRange)
      else Inr (PatternWord, PFlag, Transpositions, FlaggedChars))"
  by pat_completeness auto
termination
  by (relation "measure (\<lambda>(PM, T, flagged, TextWord, TFlag, r). unat TFlag)")
     (auto simp: blsr_less)

declare count_transpositions_block_inner.simps [simp del]

lemma skip_empty_words_progress:
  "skip_empty_words flags word flag = Inr (word', flag') \<Longrightarrow>
   flag' \<noteq> 0 \<and> (if flag = 0 then word < word' \<and> word' < length flags else word' = word)"
proof (induction flags word flag rule: skip_empty_words.induct)
  case (1 flags word flag)
  show ?case
  proof (cases "flag = 0")
    case True
    from "1.prems" True
    have unf: "(if word + 1 < length flags
                then skip_empty_words flags (word + 1) (flags ! (word + 1))
                else Inl OutOfRange) = Inr (word', flag')"
      by (simp add: skip_empty_words.simps [of flags word])
    then have lt: "word + 1 < length flags"
      by (cases "word + 1 < length flags") simp_all
    with unf have rec: "skip_empty_words flags (word + 1) (flags ! (word + 1)) = Inr (word', flag')"
      by simp
    from "1.IH" [OF True lt rec] True lt show ?thesis
      by (auto split: if_splits)
  next
    case False
    with "1.prems" show ?thesis
      by (simp add: skip_empty_words.simps [of flags word])
  qed
qed

function count_transpositions_block_loop ::
  "PM_Vec \<Rightarrow> symbol list \<Rightarrow> FlaggedCharsMultiword \<Rightarrow> nat \<Rightarrow> u64 \<Rightarrow> nat \<Rightarrow> u64 \<Rightarrow> nat \<Rightarrow> nat
     \<Rightarrow> error + nat" where
  "count_transpositions_block_loop PM T flagged TextWord TFlag PatternWord PFlag
       Transpositions FlaggedChars =
     (if FlaggedChars \<noteq> 0 then
        (case skip_empty_words (T_flags flagged) TextWord TFlag of
           Inl e \<Rightarrow> Inl e
         | Inr (TextWord', TFlag') \<Rightarrow>
             (case count_transpositions_block_inner PM T flagged TextWord' TFlag'
                     PatternWord PFlag Transpositions FlaggedChars of
                Inl e \<Rightarrow> Inl e
              | Inr (PatternWord', PFlag', Transpositions', FlaggedChars') \<Rightarrow>
                  count_transpositions_block_loop PM T flagged TextWord' 0
                    PatternWord' PFlag' Transpositions' FlaggedChars'))
      else Inr Transpositions)"
  by pat_completeness auto
termination
  apply (relation "measure (\<lambda>(PM, T, flagged, TextWord, TFlag, r).
           2 * (length (T_flags flagged) - TextWord) + of_bool (TFlag \<noteq> 0))")
   apply simp
  apply (auto dest!: skip_empty_words_progress split: if_splits)
  done

declare count_transpositions_block_loop.simps [simp del]

definition count_transpositions_block ::
  "PM_Vec \<Rightarrow> symbol list \<Rightarrow> FlaggedCharsMultiword \<Rightarrow> nat \<Rightarrow> error + nat" where
  "count_transpositions_block PM T flagged FlaggedChars =
     ebind (vec_get (T_flags flagged) 0) (\<lambda>TFlag.
     ebind (vec_get (P_flags flagged) 0) (\<lambda>PFlag.
       count_transpositions_block_loop PM T flagged 0 TFlag 0 PFlag 0 FlaggedChars))"

section \<open>Bounds, trimming and the public entry points\<close>

definition jaro_bounds :: "int \<Rightarrow> int \<Rightarrow> int" where
  "jaro_bounds P_len T_len =
     (if T_len > P_len then T_len div 2 - 1 else P_len div 2 - 1)"

text \<open>\<open>Range::remove_suffix(n)\<close> drops the last \<open>n\<close> elements.\<close>

definition remove_suffix :: "'a list \<Rightarrow> nat \<Rightarrow> 'a list" where
  "remove_suffix xs n = take (length xs - n) xs"

text \<open>
  The overload on ranges returns \<open>Bound\<close> together with the two ranges as
  it leaves them.
\<close>

definition jaro_bounds_range :: "symbol list \<Rightarrow> symbol list \<Rightarrow> int \<times> symbol list \<times> symbol list" where
  "jaro_bounds_range P T =
     (let P_len = int (length P);
          T_len = int (length T)
      in if T_len > P_len then
           let Bound = T_len div 2 - 1
           in (Bound, P, if T_len > P_len + Bound then remove_suffix T (nat (T_len - (P_len + Bound))) else T)
         else
           let Bound = P_len div 2 - 1
           in (Bound, if P_len > T_len + Bound then remove_suffix P (nat (P_len - (T_len + Bound))) else P, T))"

text \<open>
  Modelled from the spec: \<open>remove_common_prefix\<close> belongs to \<open>common.hpp\<close>.
  It strips the longest common prefix from both ranges and returns its length.
\<close>

fun common_prefix_length :: "symbol list \<Rightarrow> symbol list \<Rightarrow> nat" where
  "common_prefix_length (x # xs) (y # ys) = (if x = y then Suc (common_prefix_length xs ys) else 0)"
| "common_prefix_length xs ys = 0"

definition remove_common_prefix :: "symbol list \<Rightarrow> symbol list \<Rightarrow> nat \<times> symbol list \<times> symbol list" where
  "remove_common_prefix P T =
     (let prefix = common_prefix_length P T in (prefix, drop prefix P, drop prefix T))"

text \<open>
  The body of \<open>jaro_similarity\<close> up to the final scoring. A run ends there
  with an early return (\<open>Inl\<close> of the value returned) or reaches the final
  scoring with its \<open>CommonChars\<close> and raw \<open>Transpositions\<close> (\<open>Inr\<close>).
  The word path receives \<open>static_cast<int>(Bound)\<close>, the low 32 bits of
  \<open>Bound\<close>.
\<close>

definition jaro_similarity_flagging ::
  "symbol list \<Rightarrow> symbol list \<Rightarrow> double \<Rightarrow> error + (double + nat \<times> nat)" where
  "jaro_similarity_flagging P T score_cutoff =
     (let P_len = int (length P);
          T_len = int (length T)
      in if d_gt score_cutoff (Finite 1) then Inr (Inl (Finite 0))
         else if P_len = 0 \<and> T_len = 0 then Inr (Inl (Finite 1))
         else if \<not> jaro_length_filter P_len T_len score_cutoff then Inr (Inl (Finite 0))
         else if P_len = 1 \<and> T_len = 1 then Inr (Inl (Finite (of_bool (P ! 0 = T ! 0))))
         else
           case jaro_bounds_range P T of (Bound, P, T) \<Rightarrow>
           case remove_common_prefix P T of (CommonChars, P, T) \<Rightarrow>
             if P = [] \<or> T = [] then Inr (Inr (CommonChars, 0))
             else if length P \<le> 64 \<and> length T \<le> 64 then
               let PM = PatternMatchVector P
               in ebind (flag_similar_characters_word PM P T (word_of_int Bound)) (\<lambda>flagged.
                  let CommonChars = CommonChars + count_common_chars_word flagged
                  in if \<not> jaro_common_char_filter P_len T_len CommonChars score_cutoff
                     then Inr (Inl (Finite 0))
                     else ebind (count_transpositions_word PM T flagged) (\<lambda>Transpositions.
                          Inr (Inr (CommonChars, Transpositions))))
             else
               let PM = BlockPatternMatchVector P
               in ebind (flag_similar_characters_block PM P T Bound) (\<lambda>flagged.
                  let FlaggedChars = count_common_chars_block flagged;
                      CommonChars = CommonChars + FlaggedChars
                  in if \<not> jaro_common_char_filter P_len T_len CommonChars score_cutoff
                     then Inr (Inl (Finite 0))
                     else ebind (count_transpositions_block PM T flagged FlaggedChars) (\<lambda>Transpositions.
                          Inr (Inr (CommonChars, Transpositions)))))"

text \<open>The final scoring: \<open>jaro_calculate_similarity\<close> and the cutoff test.\<close>

definition jaro_final_score :: "int \<Rightarrow> int \<Rightarrow> double \<Rightarrow> double + nat \<times> nat \<Rightarrow> double" where
  "jaro_final_score P_len T_len score_cutoff r =
     (case r of
        Inl v \<Rightarrow> v
      | Inr (CommonChars, Transpositions) \<Rightarrow>
          let Sim = jaro_calculate_similarity P_len T_len CommonChars Transpositions
          in if d_ge Sim score_cutoff then Sim else Finite 0)"

definition jaro_similarity :: "symbol list \<Rightarrow> symbol list \<Rightarrow> double \<Rightarrow> error + double" where
  "jaro_similarity P T score_cutoff =
     ebind (jaro_similarity_flagging P T score_cutoff) (\<lambda>r.
       Inr (jaro_final_score (int (length P)) (int (length T)) score_cutoff r))"

text \<open>
  The overload that takes the caller's occurrence index \<open>PM\<close>: the same
  body without the removal of the common prefix.
\<close>

definition jaro_similarity_flagging_pm ::
  "PM_Vec \<Rightarrow> symbol list \<Rightarrow> symbol list \<Rightarrow> double \<Rightarrow> error + (double + nat \<times> nat)" where
  "jaro_similarity_flagging_pm PM P T score_cutoff =
     (let P_len = int (length P);
          T_len = int (length T)
      in if d_gt score_cutoff (Finite 1) then Inr (Inl (Finite 0))
         else if P_len = 0 \<and> T_len = 0 then Inr (Inl (Finite 1))
         else if \<not> jaro_length_filter P_len T_len score_cutoff then Inr (Inl (Finite 0))
         else if P_len = 1 \<and> T_len = 1 then Inr (Inl (Finite (of_bool (P ! 0 = T ! 0))))
         else
           case jaro_bounds_range P T of (Bound, P, T) \<Rightarrow>
             let CommonChars = 0
             in if P = [] \<or> T = [] then Inr (Inr (CommonChars, 0))
             else if length P \<le> 64 \<and> length T \<le> 64 then
               ebind (flag_similar_characters_word PM P T (word_of_int Bound)) (\<lambda>flagged.
                  let CommonChars = CommonChars + count_common_chars_word flagged
                  in if \<not> jaro_common_char_filter P_len T_len CommonChars score_cutoff
                     then Inr (Inl (Finite 0))
                     else ebind (count_transpositions_word PM T flagged) (\<lambda>Transpositions.
                          Inr (Inr (CommonChars, Transpositions))))
             else
               ebind (flag_similar_characters_block PM P T Bound) (\<lambda>flagged.
                  let FlaggedChars = count_common_chars_block flagged;
                      CommonChars = CommonChars + FlaggedChars
                  in if \<not> jaro_common_char_filter P_len T_len CommonChars score_cutoff
                     then Inr (Inl (Finite 0))
                     else ebind (count_transpositions_block PM T flagged FlaggedChars) (\<lambda>Transpositions.
                          Inr (Inr (CommonChars, Transpositions)))))"

definition jaro_similarity_pm :: "PM_Vec \<Rightarrow> symbol list \<Rightarrow> symbol list \<Rightarrow> double \<Rightarrow> error + double" where
  "jaro_similarity_pm PM P T score_cutoff =
     ebind (jaro_similarity_flagging_pm PM P T score_cutoff) (\<lambda>r.
       Inr (jaro_final_score (int (length P)) (int (length T)) score_cutoff r))"

section \<open>Facts about the bit intrinsics\<close>

lemma bit_word_minus_one:
  fixes a :: "'a::len word"
  assumes k: "bit a k" and low: "\<And>m. m < k \<Longrightarrow> \<not> bit a m"
  shows "bit (a - 1) n \<longleftrightarrow> n < LENGTH('a) \<and> (n < k \<or> (k < n \<and> bit a n))"
proof -
  define j where "j = Suc k"
  define b where "b = push_bit j (drop_bit j a)"
  have kl: "k < LENGTH('a)" using k by (rule bit_imp_le_length)
  have tb: "take_bit j a = push_bit k 1"
  proof (rule bit_eqI)
    fix n
    show "bit (take_bit j a) n = bit (push_bit k 1 :: 'a word) n"
      using k low [of n] kl
      by (cases "n = k")
         (auto simp: j_def bit_take_bit_iff bit_push_bit_iff bit_1_iff bit_exp_iff less_Suc_eq)
  qed
  have "a = b + take_bit j a"
    unfolding b_def by (rule bits_ident [symmetric])
  then have "a - 1 = b + (push_bit k 1 - 1)"
    using tb by simp
  also have "push_bit k 1 - 1 = (mask k :: 'a word)"
    by (simp add: mask_eq_exp_minus_1 push_bit_eq_mult)
  finally have eq: "a - 1 = b + mask k" .
  have bb: "\<And>n. bit b n \<longleftrightarrow> j \<le> n \<and> bit a n"
    unfolding b_def by (auto simp: bit_push_bit_iff bit_drop_bit_eq dest: bit_imp_le_length)
  have disj: "\<And>n. \<not> bit b n \<or> \<not> bit (mask k :: 'a word) n"
    by (auto simp: bb j_def bit_mask_iff)
  show ?thesis
    unfolding eq bit_disjunctive_add_iff [OF disj] bb
    by (auto simp: j_def bit_mask_iff dest: bit_imp_le_length)
qed

lemma bit_blsi:
  fixes a :: "'a::len word"
  shows "bit (blsi a) n \<longleftrightarrow> bit a n \<and> (\<forall>m<n. \<not> bit a m)"
proof (cases "a = 0")
  case True
  then show ?thesis by (simp add: blsi_def)
next
  case False
  then obtain k0 where "bit a k0" by (auto simp: bit_eq_iff)
  define k where "k = (LEAST k. bit a k)"
  have k: "bit a k" unfolding k_def using \<open>bit a k0\<close> by (rule LeastI)
  have low: "\<And>m. m < k \<Longrightarrow> \<not> bit a m" unfolding k_def by (rule not_less_Least)
  have "bit (blsi a) n \<longleftrightarrow> bit a n \<and> \<not> bit (a - 1) n"
    by (auto simp: blsi_def bit_and_iff bit_minus_iff dest: bit_imp_le_length)
  also have "\<dots> \<longleftrightarrow> n = k"
    using k low [of n] bit_word_minus_one [OF k low, of n]
    by (auto dest: bit_imp_le_length)
  also have "\<dots> \<longleftrightarrow> bit a n \<and> (\<forall>m<n. \<not> bit a m)"
    using k low by (metis linorder_neqE_nat)
  finally show ?thesis .
qed

lemma bit_blsr:
  fixes a :: "'a::len word"
  shows "bit (blsr a) n \<longleftrightarrow> bit a n \<and> (\<exists>m<n. bit a m)"
proof (cases "a = 0")
  case True
  then show ?thesis by (simp add: blsr_def)
next
  case False
  then obtain k0 where "bit a k0" by (auto simp: bit_eq_iff)
  define k where "k = (LEAST k. bit a k)"
  have k: "bit a k" unfolding k_def using \<open>bit a k0\<close> by (rule LeastI)
  have low: "\<And>m. m < k \<Longrightarrow> \<not> bit a m" unfolding k_def by (rule not_less_Least)
  have "bit (blsr a) n \<longleftrightarrow> bit a n \<and> k < n"
    using k low [of n] bit_word_minus_one [OF k low, of n]
    by (auto simp: blsr_def bit_and_iff dest: bit_imp_le_length)
  also have "\<dots> \<longleftrightarrow> bit a n \<and> (\<exists>m<n. bit a m)"
    using k low by (metis linorder_neqE_nat)
  finally show ?thesis .
qed

lemma countr_zero_least:
  fixes a :: "'a::len word"
  assumes "bit a k" and "\<And>m. m < k \<Longrightarrow> \<not> bit a m"
  shows "countr_zero a = k"
proof -
  have kl: "k < LENGTH('a)" using assms(1) by (rule bit_imp_le_length)
  then have "[0..<LENGTH('a)] = [0..<k] @ k # [Suc k..<LENGTH('a)]"
    by (metis le_add2 le_add_same_cancel2 less_imp_add_positive upt_add_eq_append upt_conv_Cons)
  then show ?thesis
    unfolding countr_zero_def using assms
    by (simp add: takeWhile_append)
qed

lemma countr_zero_0: "countr_zero (0 :: 'a::len word) = LENGTH('a)"
  by (simp add: countr_zero_def takeWhile_eq_all_conv [THEN iffD2])

lemma popcount_card: "popcount (a :: 'a::len word) = card {n. bit a n}"
proof -
  have eq: "{n. bit a n} = set (filter (bit a) [0..<LENGTH('a)])"
    by (auto dest: bit_imp_le_length)
  have "card (set (filter (bit a) [0..<LENGTH('a)])) = length (filter (bit a) [0..<LENGTH('a)])"
    by (rule distinct_card) simp
  then show ?thesis
    unfolding popcount_def eq by simp
qed

lemma bit_mask_lsb_Inr:
  assumes "0 \<le> n"
  shows "\<exists>m. bit_mask_lsb n = Inr m \<and> (\<forall>k. bit (m :: 'a::len word) k \<longleftrightarrow> k < LENGTH('a) \<and> int k < n)"
proof (cases "n < int LENGTH('a)")
  case True
  have "(- 1) + push_bit (nat n) 1 = (mask (nat n) :: 'a word)"
    by (simp add: mask_eq_exp_minus_1 push_bit_eq_mult)
  with True assms show ?thesis
    by (auto simp: bit_mask_lsb_def bit_mask_iff)
next
  case False
  with assms show ?thesis
    by (auto simp: bit_mask_lsb_def)
qed

definition flag_set :: "'a::len word \<Rightarrow> nat set" where
  "flag_set w = {n. bit w n}"

lemma flag_set_0 [simp]: "flag_set 0 = {}"
  by (simp add: flag_set_def)

lemma finite_flag_set [simp]: "finite (flag_set w)"
proof -
  have "flag_set w \<subseteq> {..<LENGTH('a)}"
    by (auto simp: flag_set_def dest: bit_imp_le_length)
  then show ?thesis by (rule finite_subset) simp
qed

lemma popcount_flag_set: "popcount w = card (flag_set w)"
  by (simp add: popcount_card flag_set_def)

lemma bit_word_double:
  "bit (m * 2 :: 'a::len word) i \<longleftrightarrow> 0 < i \<and> i < LENGTH('a) \<and> bit m (i - 1)"
proof -
  have "m * 2 = push_bit 1 m" by simp
  then have "bit (m * 2) i \<longleftrightarrow> bit (push_bit 1 m) i" by (rule arg_cong)
  also have "\<dots> \<longleftrightarrow> 0 < i \<and> i < LENGTH('a) \<and> bit m (i - 1)"
    unfolding bit_push_bit_iff possible_bit_word by auto
  finally show ?thesis .
qed

lemma occ_mask_bit: "bit (occ_mask P c) i \<longleftrightarrow> i < 64 \<and> i < length P \<and> P ! i = c"
proof (induction P arbitrary: i)
  case Nil
  then show ?case by simp
next
  case (Cons x xs)
  show ?case
  proof (cases i)
    case 0
    then show ?thesis
      by (simp add: bit_or_iff bit_word_double bit_1_iff)
  next
    case (Suc i')
    then show ?thesis
      using Cons.IH [of i']
      by (auto simp: bit_or_iff bit_word_double bit_1_iff)
  qed
qed

section \<open>Reference flagging\<close>

text \<open>
  The flagging as the specification words it: text positions are visited
  left to right, and position \<open>j\<close> flags the lowest reference position
  \<open>p\<close> in \<open>[j - Bound, j + Bound]\<close> and \<open>[0, P_len)\<close> that carries the
  symbol \<open>T[j]\<close> and is not flagged yet; \<open>j\<close> itself is flagged iff there
  is one. \<open>reference_flags P T Bound n\<close> is the pair of flag sets after the
  first \<open>n\<close> text positions.
\<close>

definition in_window :: "int \<Rightarrow> nat \<Rightarrow> nat \<Rightarrow> bool" where
  "in_window Bound j p \<longleftrightarrow> int j - Bound \<le> int p \<and> int p \<le> int j + Bound"

definition reference_match :: "symbol list \<Rightarrow> int \<Rightarrow> nat set \<Rightarrow> nat \<Rightarrow> symbol \<Rightarrow> nat option" where
  "reference_match P Bound FP j c =
     List.find (\<lambda>p. in_window Bound j p \<and> P ! p = c \<and> p \<notin> FP) [0..<length P]"

fun reference_flags :: "symbol list \<Rightarrow> symbol list \<Rightarrow> int \<Rightarrow> nat \<Rightarrow> nat set \<times> nat set" where
  "reference_flags P T Bound 0 = ({}, {})"
| "reference_flags P T Bound (Suc j) =
     (case reference_flags P T Bound j of (FP, FT) \<Rightarrow>
        (case reference_match P Bound FP j (T ! j) of
           None \<Rightarrow> (FP, FT)
         | Some p \<Rightarrow> (insert p FP, insert j FT)))"

lemma find_upt_Some:
  "List.find Q [0..<n] = Some p \<longleftrightarrow> p < n \<and> Q p \<and> (\<forall>q<p. \<not> Q q)"
  by (auto simp: find_Some_iff)

lemma find_upt_None: "List.find Q [0..<n] = None \<longleftrightarrow> (\<forall>p<n. \<not> Q p)"
  by (auto simp: find_None_iff)

section \<open>The word-path flagger computes the reference flagging\<close>

lemma ebind_Inr [simp]: "ebind (Inr x) f = f x"
  by (simp add: ebind_def)

lemma ebind_Inl [simp]: "ebind (Inl e) f = Inl e"
  by (simp add: ebind_def)

lemma ebind_eq_Inr_iff: "ebind m f = Inr y \<longleftrightarrow> (\<exists>x. m = Inr x \<and> f x = Inr y)"
  by (cases m) simp_all

lemma flag_word_loop_append:
  "flag_word_loop PM T grow (xs @ ys) s =
     ebind (flag_word_loop PM T grow xs s) (flag_word_loop PM T grow ys)"
proof (induction xs arbitrary: s)
  case Nil
  show ?case by simp
next
  case (Cons x xs)
  show ?case
    by (cases "flag_word_iter PM T grow x s") (simp_all add: Cons.IH)
qed

text \<open>
  What the flaggers need from an occurrence index used with word number 0:
  it knows every occurrence in \<open>P\<close>, and inside any window it reports
  nothing but occurrences in \<open>P\<close>.
\<close>

definition index_word_ok :: "PM_Vec \<Rightarrow> symbol list \<Rightarrow> symbol list \<Rightarrow> int \<Rightarrow> bool" where
  "index_word_ok PM P T Bound \<longleftrightarrow>
     (\<forall>c. \<exists>m. PM 0 c = Inr m \<and>
        (\<forall>p. p < length P \<and> P ! p = c \<longrightarrow> bit m p) \<and>
        (\<forall>p j. bit m p \<and> j < length T \<and> in_window Bound j p \<longrightarrow> p < length P \<and> P ! p = c))"

lemma index_word_ok_PatternMatchVector:
  "length P \<le> 64 \<Longrightarrow> index_word_ok (PatternMatchVector P) P T Bound"
  by (auto simp: index_word_ok_def PatternMatchVector_def occ_mask_bit)

definition word_inv ::
  "symbol list \<Rightarrow> symbol list \<Rightarrow> int \<Rightarrow> nat \<Rightarrow> FlaggedCharsWord \<times> u64 \<Rightarrow> bool" where
  "word_inv P T Bound n s \<longleftrightarrow>
     flag_set (P_flag (fst s)) = fst (reference_flags P T Bound n) \<and>
     flag_set (T_flag (fst s)) = snd (reference_flags P T Bound n) \<and>
     (\<forall>p. bit (snd s) p \<longleftrightarrow> p < 64 \<and> in_window Bound n p)"

lemma word_eq_0_bits: "(x :: 'a::len word) = 0 \<longleftrightarrow> (\<forall>p. \<not> bit x p)"
  by (auto simp: bit_eq_iff dest: bit_imp_le_length)

lemma lowest_bit_match:
  fixes x :: u64
  assumes "\<And>p. bit x p \<longleftrightarrow> p < n \<and> Q p"
  shows "flag_set (blsi x) = (case List.find Q [0..<n] of None \<Rightarrow> {} | Some p \<Rightarrow> {p})"
    and "x \<noteq> 0 \<longleftrightarrow> List.find Q [0..<n] \<noteq> None"
proof -
  show "x \<noteq> 0 \<longleftrightarrow> List.find Q [0..<n] \<noteq> None"
    using assms by (auto simp: find_upt_None word_eq_0_bits)
  show "flag_set (blsi x) = (case List.find Q [0..<n] of None \<Rightarrow> {} | Some p \<Rightarrow> {p})"
  proof (cases "List.find Q [0..<n]")
    case None
    then have "x = 0"
      using assms by (auto simp: find_upt_None word_eq_0_bits)
    then show ?thesis using None by (simp add: blsi_def)
  next
    case (Some p)
    then have p: "p < n" "Q p" "\<forall>q<p. \<not> Q q"
      by (auto simp: find_upt_Some)
    have "flag_set (blsi x) = {p}"
    proof (rule set_eqI)
      fix k
      show "k \<in> flag_set (blsi x) \<longleftrightarrow> k \<in> {p}"
        using p assms unfolding flag_set_def mem_Collect_eq bit_blsi
        by (metis insert_iff empty_iff linorder_neqE_nat)
    qed
    then show ?thesis using Some by simp
  qed
qed

lemma flag_word_iter_inv:
  assumes ok: "index_word_ok PM P T Bound"
    and P: "length P \<le> 64" and j: "j < length T" "j < 64"
    and inv: "word_inv P T Bound j s"
    and grow: "if grow then int j < Bound else Bound \<le> int j"
  shows "\<exists>s'. flag_word_iter PM T grow j s = Inr s' \<and> word_inv P T Bound (Suc j) s'"
proof -
  obtain flagged BM where s: "s = (flagged, BM)" by (cases s)
  obtain FP FT where rf: "reference_flags P T Bound j = (FP, FT)" by (cases "reference_flags P T Bound j")
  from ok obtain m where m: "PM 0 (T ! j) = Inr m"
    and m1: "\<And>p. p < length P \<Longrightarrow> P ! p = T ! j \<Longrightarrow> bit m p"
    and m2: "\<And>p j'. bit m p \<Longrightarrow> j' < length T \<Longrightarrow> in_window Bound j' p \<Longrightarrow> p < length P \<and> P ! p = T ! j"
    unfolding index_word_ok_def by blast
  from inv s rf have PF: "flag_set (P_flag flagged) = FP" and TF: "flag_set (T_flag flagged) = FT"
    and BM: "\<And>p. bit BM p \<longleftrightarrow> p < 64 \<and> in_window Bound j p"
    by (simp_all add: word_inv_def)
  define PM_j where "PM_j = m AND BM AND NOT (P_flag flagged)"
  define Q where "Q = (\<lambda>p. in_window Bound j p \<and> P ! p = T ! j \<and> p \<notin> FP)"
  have bits: "\<And>p. bit PM_j p \<longleftrightarrow> p < length P \<and> Q p"
    unfolding PM_j_def Q_def bit_and_iff bit_not_iff
    using m1 m2 [OF _ j(1)] BM PF P
    by (auto simp: flag_set_def dest: bit_imp_le_length)
  have rm: "reference_match P Bound FP j (T ! j) = List.find Q [0..<length P]"
    by (simp add: reference_match_def Q_def)
  note lb = lowest_bit_match [of PM_j "length P" Q, OF bits]
  define s' where "s' = (\<lparr>P_flag = P_flag flagged OR blsi PM_j,
       T_flag = T_flag flagged OR push_bit j (of_bool (PM_j \<noteq> 0))\<rparr>,
       if grow then push_bit 1 BM OR 1 else push_bit 1 BM)"
  have run: "flag_word_iter PM T grow j s = Inr s'"
    by (simp add: flag_word_iter_def s m Let_def PM_j_def s'_def)
  have F1: "flag_set (P_flag (fst s')) = fst (reference_flags P T Bound (Suc j))"
    using lb PF
    by (auto simp: s'_def rf rm flag_set_def bit_or_iff split: option.splits)
  have tb: "flag_set (push_bit j (of_bool (PM_j \<noteq> 0)) :: u64) = (if PM_j \<noteq> 0 then {j} else {})"
    using j(2) by (auto simp: flag_set_def bit_push_bit_iff bit_1_iff)
  have F2: "flag_set (T_flag (fst s')) = snd (reference_flags P T Bound (Suc j))"
  proof -
    have "flag_set (T_flag (fst s')) = FT \<union> (if PM_j \<noteq> 0 then {j} else {})"
      using tb TF by (auto simp: s'_def flag_set_def bit_or_iff)
    then show ?thesis
      using lb(2) by (auto simp: rf rm split: option.splits)
  qed
  have F3: "\<And>p. bit (snd s') p \<longleftrightarrow> p < 64 \<and> in_window Bound (Suc j) p"
  proof -
    fix p
    have sh: "bit (push_bit 1 BM) p \<longleftrightarrow> 0 < p \<and> p < 64 \<and> in_window Bound j (p - 1)"
      using BM [of "p - 1"] by (auto simp: bit_word_double)
    show "bit (snd s') p \<longleftrightarrow> p < 64 \<and> in_window Bound (Suc j) p"
      using grow sh
      by (cases p) (auto simp: s'_def bit_or_iff bit_1_iff in_window_def split: if_splits)
  qed
  from run F1 F2 F3 show ?thesis
    unfolding word_inv_def by blast
qed

lemma flag_word_loop_inv:
  assumes ok: "index_word_ok PM P T Bound"
    and P: "length P \<le> 64" and T: "length T \<le> 64"
    and inv: "word_inv P T Bound a s"
    and grow: "if grow then int b \<le> Bound else Bound \<le> int a"
    and ab: "a \<le> b" "b \<le> length T"
  shows "\<exists>s'. flag_word_loop PM T grow [a..<b] s = Inr s' \<and> word_inv P T Bound b s'"
  using ab grow
proof (induction b)
  case 0
  then show ?case using inv by simp
next
  case (Suc b)
  show ?case
  proof (cases "a = Suc b")
    case True
    then show ?thesis using inv by simp
  next
    case False
    with Suc.prems have ab': "a \<le> b" "b \<le> length T" by simp_all
    have g': "if grow then int b \<le> Bound else Bound \<le> int a"
      using Suc.prems(3) by (auto split: if_splits)
    from Suc.IH [OF ab' g'] obtain s1 where
      s1: "flag_word_loop PM T grow [a..<b] s = Inr s1" and inv1: "word_inv P T Bound b s1"
      by blast
    have gb: "if grow then int b < Bound else Bound \<le> int b"
      using Suc.prems(3) ab' by (auto split: if_splits)
    have "b < length T" "b < 64" using Suc.prems(2) T by simp_all
    from flag_word_iter_inv [OF ok P this inv1 gb] obtain s2 where
      s2: "flag_word_iter PM T grow b s1 = Inr s2" and inv2: "word_inv P T Bound (Suc b) s2"
      by blast
    have "[a..<Suc b] = [a..<b] @ [b]" using ab' by simp
    then have "flag_word_loop PM T grow [a..<Suc b] s = Inr s2"
      by (simp add: flag_word_loop_append s1 s2)
    with inv2 show ?thesis by blast
  qed
qed

text \<open>The state of the word-path flagger after its first \<open>n\<close> iterations.\<close>

definition flag_word_run :: "PM_Vec \<Rightarrow> symbol list \<Rightarrow> int \<Rightarrow> nat \<Rightarrow> error + FlaggedCharsWord \<times> u64" where
  "flag_word_run PM T Bound n =
     ebind (bit_mask_lsb (Bound + 1)) (\<lambda>BoundMask.
     let n1 = nat (min Bound (int (length T)))
     in ebind (flag_word_loop PM T True [0..<min n n1] (\<lparr>P_flag = 0, T_flag = 0\<rparr>, BoundMask))
              (flag_word_loop PM T False [n1..<n]))"

lemma word_inv_init:
  assumes "\<And>k. bit BM0 k \<longleftrightarrow> k < 64 \<and> int k < Bound + 1"
  shows "word_inv P T Bound 0 (\<lparr>P_flag = 0, T_flag = 0\<rparr>, BM0)"
proof -
  have "bit BM0 p \<longleftrightarrow> p < 64 \<and> in_window Bound 0 p" for p
    unfolding assms in_window_def by (cases "p < 64") auto
  then show ?thesis
    by (simp add: word_inv_def)
qed

lemma flag_word_run_inv:
  assumes ok: "index_word_ok PM P T Bound"
    and P: "length P \<le> 64" and T: "length T \<le> 64" and n: "n \<le> length T"
    and B: "- 1 \<le> Bound"
  shows "\<exists>s. flag_word_run PM T Bound n = Inr s \<and> word_inv P T Bound n s"
proof -
  define n1 where "n1 = nat (min Bound (int (length T)))"
  have n1T: "n1 \<le> length T" by (simp add: n1_def)
  from B have "0 \<le> Bound + 1" by simp
  from bit_mask_lsb_Inr [OF this, where 'a = 64] obtain BM0 :: u64 where
    bm: "bit_mask_lsb (Bound + 1) = Inr BM0"
    and bits: "\<And>k. bit BM0 k \<longleftrightarrow> k < 64 \<and> int k < Bound + 1"
    by auto
  note init = word_inv_init [of BM0 Bound P T, OF bits]
  have "\<exists>s1. flag_word_loop PM T True [0..<min n n1] (\<lparr>P_flag = 0, T_flag = 0\<rparr>, BM0) = Inr s1 \<and>
        word_inv P T Bound (min n n1) s1"
  proof (cases "0 \<le> Bound")
    case True
    then have g1: "if True then int (min n n1) \<le> Bound else Bound \<le> int 0"
      by (auto simp: n1_def min_def)
    from flag_word_loop_inv [OF ok P T init g1] n show ?thesis
      by auto
  next
    case False
    then have "min n n1 = 0" by (simp add: n1_def)
    then show ?thesis using init by simp
  qed
  then obtain s1 where s1: "flag_word_loop PM T True [0..<min n n1]
        (\<lparr>P_flag = 0, T_flag = 0\<rparr>, BM0) = Inr s1"
    and inv1: "word_inv P T Bound (min n n1) s1"
    by blast
  show ?thesis
  proof (cases "n \<le> n1")
    case True
    then have "[n1..<n] = []" "min n n1 = n" by simp_all
    with s1 inv1 show ?thesis
      by (auto simp: flag_word_run_def Let_def n1_def [symmetric] bm)
  next
    case False
    then have m: "min n n1 = n1" and lt: "n1 \<le> n" by simp_all
    have "Bound \<le> int n1"
      using False n by (auto simp: n1_def min_def split: if_splits)
    then have g2: "if False then int n \<le> Bound else Bound \<le> int n1" by simp
    from flag_word_loop_inv [OF ok P T inv1 [unfolded m] g2 lt n]
    obtain s2 where "flag_word_loop PM T False [n1..<n] s1 = Inr s2" "word_inv P T Bound n s2"
      by blast
    with s1 show ?thesis
      by (auto simp: flag_word_run_def Let_def n1_def [symmetric] m bm)
  qed
qed

lemma flag_similar_characters_word_run:
  assumes "length P \<le> 64" "length T \<le> 64"
    and "sint Bound > int (length P) \<or> int (length P) - sint Bound \<le> int (length T)"
    and "sint Bound < 2147483647"
  shows "flag_similar_characters_word PM P T Bound =
     ebind (flag_word_run PM T (sint Bound) (length T)) (\<lambda>s. Inr (fst s))"
proof -
  have m: "min (length T) (nat (min (sint Bound) (int (length T)))) = nat (min (sint Bound) (int (length T)))"
    by simp
  show ?thesis
  proof (cases "bit_mask_lsb (sint Bound + 1) :: error + u64")
    case (Inl e)
    then show ?thesis
      using assms by (simp add: flag_similar_characters_word_def flag_word_run_def)
  next
    case (Inr BM0)
    then show ?thesis
      using assms m
      by (cases "flag_word_loop PM T True [0..<nat (min (sint Bound) (int (length T)))]
                 (\<lparr>P_flag = 0, T_flag = 0\<rparr>, BM0)")
         (simp_all add: flag_similar_characters_word_def flag_word_run_def Let_def)
  qed
qed

lemma flag_similar_characters_word_correct:
  assumes ok: "index_word_ok PM P T (sint Bound)"
    and P: "length P \<le> 64" and T: "length T \<le> 64"
    and B: "sint Bound > int (length P) \<or> int (length P) - sint Bound \<le> int (length T)"
    and R: "- 1 \<le> sint Bound" "sint Bound < 2147483647"
  shows "\<exists>flagged. flag_similar_characters_word PM P T Bound = Inr flagged \<and>
     flag_set (P_flag flagged) = fst (reference_flags P T (sint Bound) (length T)) \<and>
     flag_set (T_flag flagged) = snd (reference_flags P T (sint Bound) (length T))"
proof -
  from flag_word_run_inv [OF ok P T order_refl R(1)] obtain s where
    "flag_word_run PM T (sint Bound) (length T) = Inr s" "word_inv P T (sint Bound) (length T) s"
    by blast
  then show ?thesis
    unfolding flag_similar_characters_word_run [OF P T B R(2)]
    by (auto simp: word_inv_def)
qed

lemma ebind_assoc: "ebind (ebind m f) g = ebind m (\<lambda>x. ebind (f x) g)"
  by (cases m) simp_all

lemma ebind_flag_word_loop_Nil [simp]: "ebind m (flag_word_loop PM T grow []) = m"
  by (cases m) simp_all

lemma flag_word_loop_single [simp]:
  "flag_word_loop PM T grow [j] s = flag_word_iter PM T grow j s"
  by (cases "flag_word_iter PM T grow j s") simp_all

lemma flag_word_run_Suc:
  assumes "n < length T"
  shows "flag_word_run PM T Bound (Suc n) =
     ebind (flag_word_run PM T Bound n) (flag_word_iter PM T (int n < Bound) n)"
proof (cases "bit_mask_lsb (Bound + 1) :: error + u64")
  case (Inl e)
  then show ?thesis by (simp add: flag_word_run_def)
next
  case (Inr BM0)
  define n1 where "n1 = nat (min Bound (int (length T)))"
  define init :: "FlaggedCharsWord \<times> u64" where
    "init = (\<lparr>P_flag = 0, T_flag = 0\<rparr>, BM0)"
  show ?thesis
  proof (cases "int n < Bound")
    case True
    with assms have lt: "n < n1" by (simp add: n1_def)
    then have a: "min (Suc n) n1 = Suc n" "min n n1 = n" "[n1..<Suc n] = []" "[n1..<n] = []"
      by simp_all
    have "flag_word_loop PM T True [0..<Suc n] init =
        ebind (flag_word_loop PM T True [0..<n] init) (flag_word_iter PM T True n)"
      using flag_word_loop_append [of PM T True "[0..<n]" "[n]" init]
      by (simp add: flag_word_loop_single [abs_def])
    then show ?thesis
      using True lt
      by (simp add: flag_word_run_def Inr Let_def n1_def [symmetric] init_def [symmetric] a)
  next
    case False
    with assms have ge: "n1 \<le> n" by (simp add: n1_def min_def split: if_splits)
    then have a: "min (Suc n) n1 = n1" "min n n1 = n1" "[n1..<Suc n] = [n1..<n] @ [n]"
      by simp_all
    have "flag_word_loop PM T False ([n1..<n] @ [n]) =
        (\<lambda>s. ebind (flag_word_loop PM T False [n1..<n] s) (flag_word_iter PM T False n))"
      by (rule ext) (simp add: flag_word_loop_append flag_word_loop_single [abs_def])
    then show ?thesis
      using False ge
      by (simp add: flag_word_run_def Inr Let_def n1_def [symmetric] init_def [symmetric] a ebind_assoc)
  qed
qed

section \<open>The window bookkeeping of the block path\<close>

text \<open>
  Before text position \<open>j\<close> the window is \<open>[lo, hi)\<close> with
  \<open>lo = max 0 (j - Bound)\<close> and \<open>hi = min P_size (j + Bound + 1)\<close>. The
  bookkeeping keeps the word of \<open>lo\<close> in \<open>empty_words\<close>, the bits from
  \<open>lo\<close> on in \<open>first_mask\<close>, the word \<open>lw\<close> of the upper edge as
  \<open>empty_words + words - 1\<close> and the bits below \<open>hi\<close> of that word in
  \<open>last_mask\<close>.
\<close>

definition window_lo :: "int \<Rightarrow> nat \<Rightarrow> nat" where
  "window_lo Bound j = nat (int j - Bound)"

definition window_hi :: "nat \<Rightarrow> int \<Rightarrow> nat \<Rightarrow> nat" where
  "window_hi P_size Bound j = nat (min (int P_size) (int j + Bound + 1))"

definition bm_inv :: "nat \<Rightarrow> int \<Rightarrow> nat \<Rightarrow> SearchBoundMask \<Rightarrow> bool" where
  "bm_inv P_size Bound j BM \<longleftrightarrow>
     empty_words BM = window_lo Bound j div 64 \<and>
     (\<forall>i. bit (first_mask BM) i \<longleftrightarrow> i < 64 \<and> window_lo Bound j mod 64 \<le> i) \<and>
     (\<exists>lw. empty_words BM + words BM = lw + 1 \<and>
        64 * lw \<le> window_hi P_size Bound j \<and> window_hi P_size Bound j \<le> 64 * lw + 64 \<and>
        (window_hi P_size Bound j = 64 * lw + 64 \<longrightarrow> window_hi P_size Bound j = P_size) \<and>
        (\<forall>i. bit (last_mask BM) i \<longleftrightarrow> i < 64 \<and> 64 * lw + i < window_hi P_size Bound j))"

lemma word_eq_all_bits: "(x :: u64) = NOT 0 \<longleftrightarrow> (\<forall>i<64. bit x i)"
  by (auto simp: bit_eq_iff bit_not_iff)

lemma bm_inv_init:
  assumes "0 \<le> Bound"
  shows "bm_inv P_size Bound 0
     \<lparr>words = 1 + nat (min (Bound + 1) (int P_size)) div 64,
      empty_words = 0,
      last_mask = push_bit (nat (min (Bound + 1) (int P_size)) mod 64) 1 - 1,
      first_mask = NOT 0\<rparr>"
proof -
  define h where "h = nat (min (Bound + 1) (int P_size))"
  have lm: "push_bit (h mod 64) 1 - 1 = (mask (h mod 64) :: u64)"
    by (simp add: mask_eq_exp_minus_1 push_bit_eq_mult)
  have hi: "window_hi P_size Bound 0 = h"
    by (simp add: window_hi_def h_def min.commute)
  have lo: "window_lo Bound 0 = 0"
    using assms by (simp add: window_lo_def)
  have hd: "64 * (h div 64) + h mod 64 = h" by simp
  have lb: "bit (mask (h mod 64) :: u64) i \<longleftrightarrow> i < 64 \<and> 64 * (h div 64) + i < h" for i
  proof -
    have "i < h mod 64 \<longleftrightarrow> 64 * (h div 64) + i < h"
      using hd by linarith
    moreover have "i < h mod 64 \<Longrightarrow> i < 64"
      by (rule less_trans [where y = "h mod 64"]) simp_all
    ultimately show ?thesis
      by (auto simp: bit_mask_iff)
  qed
  have fb: "bit (NOT 0 :: u64) i \<longleftrightarrow> i < 64 \<and> 0 mod 64 \<le> i" for i
    by (simp add: bit_not_iff)
  have ex: "0 + (1 + h div 64) = h div 64 + 1 \<and> 64 * (h div 64) \<le> h \<and> h \<le> 64 * (h div 64) + 64 \<and>
      (h = 64 * (h div 64) + 64 \<longrightarrow> h = P_size) \<and>
      (\<forall>i. bit (mask (h mod 64) :: u64) i \<longleftrightarrow> i < 64 \<and> 64 * (h div 64) + i < h)"
    using hd lb by (intro conjI allI impI) linarith+
  show ?thesis
    unfolding bm_inv_def hi lo h_def [symmetric] lm
    apply (simp only: SearchBoundMask.simps)
    apply (intro conjI)
      apply simp
     apply (rule allI, rule fb)
    apply (rule exI [of _ "h div 64"])
    apply (rule ex)
    done
qed
lemma mod64_succ:
  fixes a :: nat
  shows "a mod 64 = 63 \<Longrightarrow> Suc a mod 64 = 0 \<and> Suc a div 64 = a div 64 + 1"
    and "a mod 64 \<noteq> 63 \<Longrightarrow> Suc a mod 64 = a mod 64 + 1 \<and> Suc a div 64 = a div 64"
proof -
  show "a mod 64 = 63 \<Longrightarrow> Suc a mod 64 = 0 \<and> Suc a div 64 = a div 64 + 1"
    by (simp add: mod_Suc div_Suc)
  show "a mod 64 \<noteq> 63 \<Longrightarrow> Suc a mod 64 = a mod 64 + 1 \<and> Suc a div 64 = a div 64"
    by (simp add: mod_Suc div_Suc)
qed

text \<open>The two halves of \<open>advance_bound_mask\<close>.\<close>

definition advance_last :: "int \<Rightarrow> int \<Rightarrow> int \<Rightarrow> SearchBoundMask \<Rightarrow> SearchBoundMask" where
  "advance_last P_size Bound j BoundMask =
     (if j + Bound + 1 < P_size then
        let BoundMask = BoundMask\<lparr>last_mask := push_bit 1 (last_mask BoundMask) OR 1\<rparr>
        in if j + Bound + 2 < P_size \<and> last_mask BoundMask = NOT 0
           then BoundMask\<lparr>last_mask := 0, words := words BoundMask + 1\<rparr>
           else BoundMask
      else BoundMask)"

definition advance_first :: "int \<Rightarrow> int \<Rightarrow> SearchBoundMask \<Rightarrow> SearchBoundMask" where
  "advance_first Bound j BoundMask =
     (if j \<ge> Bound then
        let BoundMask = BoundMask\<lparr>first_mask := push_bit 1 (first_mask BoundMask)\<rparr>
        in if first_mask BoundMask = 0
           then BoundMask\<lparr>first_mask := NOT 0,
                          words := size_t_dec (words BoundMask),
                          empty_words := empty_words BoundMask + 1\<rparr>
           else BoundMask
      else BoundMask)"

lemma advance_bound_mask_split:
  "advance_bound_mask P_size Bound j BM = advance_first Bound j (advance_last P_size Bound j BM)"
  by (simp add: advance_bound_mask_def advance_first_def advance_last_def Let_def)

lemma advance_last_inv:
  assumes B: "0 \<le> Bound"
    and lw: "64 * lw \<le> window_hi P_size Bound j" "window_hi P_size Bound j \<le> 64 * lw + 64"
      "window_hi P_size Bound j = 64 * lw + 64 \<longrightarrow> window_hi P_size Bound j = P_size"
    and lm: "\<And>i. bit (last_mask BM) i \<longleftrightarrow> i < 64 \<and> 64 * lw + i < window_hi P_size Bound j"
    and sum: "empty_words BM + words BM = lw + 1"
  shows "\<exists>lw'. empty_words (advance_last (int P_size) Bound (int j) BM) = empty_words BM \<and>
      first_mask (advance_last (int P_size) Bound (int j) BM) = first_mask BM \<and>
      empty_words BM + words (advance_last (int P_size) Bound (int j) BM) = lw' + 1 \<and>
      words BM \<le> words (advance_last (int P_size) Bound (int j) BM) \<and>
      64 * lw' \<le> window_hi P_size Bound (Suc j) \<and> window_hi P_size Bound (Suc j) \<le> 64 * lw' + 64 \<and>
      (window_hi P_size Bound (Suc j) = 64 * lw' + 64 \<longrightarrow> window_hi P_size Bound (Suc j) = P_size) \<and>
      (\<forall>i. bit (last_mask (advance_last (int P_size) Bound (int j) BM)) i \<longleftrightarrow>
           i < 64 \<and> 64 * lw' + i < window_hi P_size Bound (Suc j))"
proof (cases "int j + Bound + 1 < int P_size")
  case False
  then have "window_hi P_size Bound (Suc j) = window_hi P_size Bound j"
    by (simp add: window_hi_def min_def)
  moreover have "advance_last (int P_size) Bound (int j) BM = BM"
    using False by (simp add: advance_last_def)
  ultimately show ?thesis
    using lw lm sum by (intro exI [of _ lw]) simp
next
  case True
  define hi where "hi = window_hi P_size Bound j"
  have hi: "int hi = int j + Bound + 1" and hiP: "hi < P_size"
    using True B by (simp_all add: hi_def window_hi_def min_def)
  have "int (window_hi P_size Bound (Suc j)) = int hi + 1"
    using True B hi unfolding window_hi_def by (simp add: min_def)
  then have hi': "window_hi P_size Bound (Suc j) = hi + 1"
    by linarith
  have hlt: "hi < 64 * lw + 64"
    using lw(2,3) hiP unfolding hi_def [symmetric] by linarith
  define lm' :: u64 where "lm' = push_bit 1 (last_mask BM) OR 1"
  have lm'b: "bit lm' i \<longleftrightarrow> i < 64 \<and> 64 * lw + i < hi + 1" for i
  proof (cases i)
    case 0
    then show ?thesis using lw(1) by (simp add: lm'_def bit_or_iff bit_word_double bit_1_iff hi_def)
  next
    case (Suc i')
    then show ?thesis
      using lm [of i'] by (auto simp: lm'_def bit_or_iff bit_word_double bit_1_iff hi_def)
  qed
  have full: "lm' = NOT 0 \<longleftrightarrow> hi + 1 = 64 * lw + 64"
  proof
    assume "lm' = NOT 0"
    then have "bit lm' 63" by (simp add: word_eq_all_bits)
    then show "hi + 1 = 64 * lw + 64" using lm'b [of 63] hlt by linarith
  next
    assume "hi + 1 = 64 * lw + 64"
    then show "lm' = NOT 0"
      unfolding word_eq_all_bits using lm'b by auto
  qed
  show ?thesis
  proof (cases "int j + Bound + 2 < int P_size \<and> lm' = NOT 0")
    case c2: True
    then have adv: "advance_last (int P_size) Bound (int j) BM
        = BM\<lparr>last_mask := 0, words := words BM + 1\<rparr>"
      using True by (simp add: advance_last_def Let_def lm'_def)
    from c2 full have e: "hi + 1 = 64 * lw + 64" by simp
    show ?thesis
      unfolding adv hi'
      using e sum by (intro exI [of _ "lw + 1"]) simp
  next
    case c2: False
    then have adv: "advance_last (int P_size) Bound (int j) BM = BM\<lparr>last_mask := lm'\<rparr>"
      using True by (auto simp: advance_last_def Let_def lm'_def)
    have "hi + 1 = 64 * lw + 64 \<longrightarrow> hi + 1 = P_size"
      using c2 full hi hiP by auto
    then show ?thesis
      unfolding adv hi'
      using lm'b hlt lw(1) [unfolded hi_def [symmetric]] sum
      by (intro exI [of _ lw]) simp
  qed
qed

lemma advance_first_inv:
  assumes B: "0 \<le> Bound"
    and ew: "empty_words BM = window_lo Bound j div 64"
    and fm: "\<And>i. bit (first_mask BM) i \<longleftrightarrow> i < 64 \<and> window_lo Bound j mod 64 \<le> i"
    and w: "1 \<le> words BM"
  shows "empty_words (advance_first Bound (int j) BM) = window_lo Bound (Suc j) div 64 \<and>
      (\<forall>i. bit (first_mask (advance_first Bound (int j) BM)) i \<longleftrightarrow>
           i < 64 \<and> window_lo Bound (Suc j) mod 64 \<le> i) \<and>
      last_mask (advance_first Bound (int j) BM) = last_mask BM \<and>
      empty_words (advance_first Bound (int j) BM) + words (advance_first Bound (int j) BM)
        = empty_words BM + words BM"
proof (cases "Bound \<le> int j")
  case False
  then have "window_lo Bound (Suc j) = 0" "window_lo Bound j = 0"
    by (simp_all add: window_lo_def)
  moreover have "advance_first Bound (int j) BM = BM"
    using False by (simp add: advance_first_def)
  ultimately show ?thesis using ew fm by simp
next
  case True
  define lo where "lo = window_lo Bound j"
  have lo': "window_lo Bound (Suc j) = Suc lo"
    using True by (simp add: lo_def window_lo_def nat_diff_distrib Suc_nat_eq_nat_zadd1 algebra_simps)
  define fm' :: u64 where "fm' = push_bit 1 (first_mask BM)"
  have fm'b: "bit fm' i \<longleftrightarrow> i < 64 \<and> lo mod 64 + 1 \<le> i" for i
    using fm [of "i - 1"] by (cases i) (auto simp: fm'_def bit_word_double lo_def)
  have z: "fm' = 0 \<longleftrightarrow> lo mod 64 = 63"
  proof
    assume "fm' = 0"
    then have "\<not> bit fm' 63" by simp
    moreover have "lo mod 64 < 64" by simp
    ultimately show "lo mod 64 = 63" using fm'b [of 63] by linarith
  next
    assume "lo mod 64 = 63"
    then show "fm' = 0" using fm'b by (auto simp: word_eq_0_bits)
  qed
  show ?thesis
  proof (cases "fm' = 0")
    case z0: True
    then have adv: "advance_first Bound (int j) BM
       = BM\<lparr>first_mask := NOT 0, words := size_t_dec (words BM), empty_words := empty_words BM + 1\<rparr>"
      using True by (simp add: advance_first_def Let_def fm'_def)
    from z0 z have "lo mod 64 = 63" by simp
    from mod64_succ(1) [OF this] have s: "Suc lo mod 64 = 0" "Suc lo div 64 = lo div 64 + 1"
      by simp_all
    have d: "size_t_dec (words BM) = words BM - 1"
      using w by (simp add: size_t_dec_def)
    show ?thesis
      unfolding adv lo' using s ew w d
      by (simp add: lo_def bit_not_iff)
  next
    case z0: False
    then have adv: "advance_first Bound (int j) BM = BM\<lparr>first_mask := fm'\<rparr>"
      using True by (auto simp: advance_first_def Let_def fm'_def)
    from z0 z have "lo mod 64 \<noteq> 63" by simp
    from mod64_succ(2) [OF this] have s: "Suc lo mod 64 = lo mod 64 + 1" "Suc lo div 64 = lo div 64"
      by simp_all
    show ?thesis
      unfolding adv lo' using s ew fm'b
      by (simp add: lo_def)
  qed
qed

lemma advance_bound_mask_inv:
  assumes B: "0 \<le> Bound" and inv: "bm_inv P_size Bound j BM" and w: "1 \<le> words BM"
  shows "bm_inv P_size Bound (Suc j) (advance_bound_mask (int P_size) Bound (int j) BM)"
proof -
  from inv obtain lw where
    ew: "empty_words BM = window_lo Bound j div 64"
    and fm: "\<And>i. bit (first_mask BM) i \<longleftrightarrow> i < 64 \<and> window_lo Bound j mod 64 \<le> i"
    and sum: "empty_words BM + words BM = lw + 1"
    and lw: "64 * lw \<le> window_hi P_size Bound j" "window_hi P_size Bound j \<le> 64 * lw + 64"
      "window_hi P_size Bound j = 64 * lw + 64 \<longrightarrow> window_hi P_size Bound j = P_size"
    and lm: "\<And>i. bit (last_mask BM) i \<longleftrightarrow> i < 64 \<and> 64 * lw + i < window_hi P_size Bound j"
    unfolding bm_inv_def by blast
  define BM1 where "BM1 = advance_last (int P_size) Bound (int j) BM"
  from advance_last_inv [OF B lw lm sum] obtain lw' where
    l1: "empty_words BM1 = empty_words BM" "first_mask BM1 = first_mask BM"
      "empty_words BM + words BM1 = lw' + 1" "words BM \<le> words BM1"
    and l2: "64 * lw' \<le> window_hi P_size Bound (Suc j)" "window_hi P_size Bound (Suc j) \<le> 64 * lw' + 64"
      "window_hi P_size Bound (Suc j) = 64 * lw' + 64 \<longrightarrow> window_hi P_size Bound (Suc j) = P_size"
    and l3: "\<And>i. bit (last_mask BM1) i \<longleftrightarrow> i < 64 \<and> 64 * lw' + i < window_hi P_size Bound (Suc j)"
    unfolding BM1_def by blast
  have w1: "1 \<le> words BM1" using w l1(4) by linarith
  have ew1: "empty_words BM1 = window_lo Bound j div 64" using ew l1 by simp
  have fm1: "\<And>i. bit (first_mask BM1) i \<longleftrightarrow> i < 64 \<and> window_lo Bound j mod 64 \<le> i"
    using fm l1 by simp
  note f = advance_first_inv [OF B ew1 fm1 w1]
  have sum': "empty_words (advance_first Bound (int j) BM1) + words (advance_first Bound (int j) BM1)
      = lw' + 1"
    using f l1 by simp
  have "\<exists>lw. empty_words (advance_first Bound (int j) BM1) + words (advance_first Bound (int j) BM1)
        = lw + 1 \<and>
      64 * lw \<le> window_hi P_size Bound (Suc j) \<and> window_hi P_size Bound (Suc j) \<le> 64 * lw + 64 \<and>
      (window_hi P_size Bound (Suc j) = 64 * lw + 64 \<longrightarrow> window_hi P_size Bound (Suc j) = P_size) \<and>
      (\<forall>i. bit (last_mask (advance_first Bound (int j) BM1)) i \<longleftrightarrow>
           i < 64 \<and> 64 * lw + i < window_hi P_size Bound (Suc j))"
    using f sum' l2 l3 by (intro exI [of _ lw']) simp
  then show ?thesis
    unfolding bm_inv_def advance_bound_mask_split BM1_def [symmetric]
    using f by blast
qed

section \<open>The block-path step computes the reference step\<close>

text \<open>The positions flagged in a vector of flag words: bit \<open>i\<close> of word \<open>w\<close> is position \<open>64 * w + i\<close>.\<close>

definition mw_set :: "u64 list \<Rightarrow> nat set" where
  "mw_set fl = {p. p div 64 < length fl \<and> bit (fl ! (p div 64)) (p mod 64)}"

definition set_flag :: "u64 list \<Rightarrow> nat \<Rightarrow> u64 list" where
  "set_flag fl p = fl[p div 64 := fl ! (p div 64) OR push_bit (p mod 64) 1]"

fun ref_mark :: "FlaggedCharsMultiword \<Rightarrow> nat \<Rightarrow> nat option \<Rightarrow> FlaggedCharsMultiword" where
  "ref_mark flagged j None = flagged"
| "ref_mark flagged j (Some p) =
     \<lparr>P_flags = set_flag (P_flags flagged) p, T_flags = set_flag (T_flags flagged) j\<rparr>"

lemma length_set_flag [simp]: "length (set_flag fl p) = length fl"
  by (simp add: set_flag_def)

lemma bit_push_bit_1_u64: "bit (push_bit k 1 :: u64) i \<longleftrightarrow> i = k \<and> k < 64"
  by (auto simp: bit_exp_iff)

lemma bit_exp_u64: "bit (2 ^ k :: u64) i \<longleftrightarrow> i = k \<and> k < 64"
  by (auto simp: bit_exp_iff)

lemma mw_set_set_flag:
  assumes "p div 64 < length fl"
  shows "mw_set (set_flag fl p) = insert p (mw_set fl)"
proof (rule set_eqI)
  fix q
  show "q \<in> mw_set (set_flag fl p) \<longleftrightarrow> q \<in> insert p (mw_set fl)"
  proof (cases "q div 64 = p div 64")
    case True
    have "q mod 64 = p mod 64 \<longleftrightarrow> q = p"
      using True by (metis div_mult_mod_eq)
    moreover have "p mod 64 < 64" by simp
    ultimately show ?thesis
      using True assms
      by (auto simp: mw_set_def set_flag_def bit_or_iff bit_exp_u64)
  next
    case False
    then have "q \<noteq> p" by auto
    with False show ?thesis
      by (auto simp: mw_set_def set_flag_def)
  qed
qed

lemma mw_set_replicate [simp]: "mw_set (replicate n 0) = {}"
  by (auto simp: mw_set_def)

lemma vec_or_0 [simp]: "i < length xs \<Longrightarrow> vec_or xs i 0 = Inr xs"
  by (simp add: vec_or_def)

lemma mark_flags_none:
  assumes "w < length (P_flags flagged)" "j div 64 < length (T_flags flagged)"
  shows "mark_flags flagged w 0 j (of_bool False) = Inr flagged"
  using assms by (simp add: mark_flags_def blsi_def)

lemma blsi_push_bit:
  fixes x :: u64
  assumes "bit x k" "\<And>i. i < k \<Longrightarrow> \<not> bit x i"
  shows "blsi x = push_bit k 1"
proof (rule bit_eqI)
  fix i
  have "k < 64" using assms(1) by (auto dest: bit_imp_le_length)
  then show "bit (blsi x) i = bit (push_bit k 1 :: u64) i"
    unfolding bit_blsi bit_push_bit_1_u64
    using assms by (metis linorder_neqE_nat)
qed

lemma mark_flags_found:
  fixes x :: u64
  assumes bits: "\<And>i. bit x i \<longleftrightarrow> i < 64 \<and> 64 * w + i < n \<and> Q (64 * w + i)"
    and nz: "x \<noteq> 0"
    and before: "\<And>q. q < 64 * w \<Longrightarrow> q < n \<Longrightarrow> \<not> Q q"
    and rng: "w < length (P_flags flagged)" "j div 64 < length (T_flags flagged)"
  shows "mark_flags flagged w x j 1 = Inr (ref_mark flagged j (List.find Q [0..<n]))"
proof -
  from nz obtain k0 where "bit x k0" by (auto simp: word_eq_0_bits)
  define k where "k = (LEAST k. bit x k)"
  have k: "bit x k" unfolding k_def using \<open>bit x k0\<close> by (rule LeastI)
  have low: "\<And>i. i < k \<Longrightarrow> \<not> bit x i" unfolding k_def by (rule not_less_Least)
  from k bits have k64: "k < 64" and kn: "64 * w + k < n" and kQ: "Q (64 * w + k)"
    by auto
  have "\<not> Q q" if "q < 64 * w + k" for q
  proof (cases "q < 64 * w")
    case True
    then show ?thesis using before that kn by simp
  next
    case False
    define i where "i = q - 64 * w"
    have q: "q = 64 * w + i" and ik: "i < k" using False that by (simp_all add: i_def)
    from low [OF ik] bits [of i] ik k64 kn show ?thesis
      unfolding q by auto
  qed
  then have f: "List.find Q [0..<n] = Some (64 * w + k)"
    using kn kQ by (simp add: find_upt_Some)
  have dm: "(64 * w + k) div 64 = w" "(64 * w + k) mod 64 = k"
    using k64 by simp_all
  have b: "blsi x = push_bit k 1"
    using k low by (rule blsi_push_bit)
  show ?thesis
    unfolding f using rng k64
    by (simp add: mark_flags_def vec_or_def set_flag_def b)
qed

text \<open>The candidates of the reference match.\<close>

definition cand :: "symbol list \<Rightarrow> int \<Rightarrow> nat set \<Rightarrow> nat \<Rightarrow> symbol \<Rightarrow> nat \<Rightarrow> bool" where
  "cand P Bound FP j c p \<longleftrightarrow> in_window Bound j p \<and> P ! p = c \<and> p \<notin> FP"

lemma reference_match_cand:
  "reference_match P Bound FP j c = List.find (cand P Bound FP j c) [0..<length P]"
  by (simp add: reference_match_def cand_def [abs_def])

lemma in_window_lo_hi:
  "p < P_size \<and> in_window Bound j p \<longleftrightarrow> window_lo Bound j \<le> p \<and> p < window_hi P_size Bound j"
  by (auto simp: in_window_def window_lo_def window_hi_def)

text \<open>
  What the block flagger needs from the occurrence index: each word
  \<open>w\<close> of the reference is answered, with every occurrence in \<open>P\<close>, and
  inside any window with nothing but occurrences in \<open>P\<close>.
\<close>

definition index_block_ok :: "PM_Vec \<Rightarrow> symbol list \<Rightarrow> symbol list \<Rightarrow> int \<Rightarrow> bool" where
  "index_block_ok PM P T Bound \<longleftrightarrow>
     (\<forall>w c. w < ceil_div (length P) 64 \<longrightarrow> (\<exists>m. PM w c = Inr m \<and>
        (\<forall>i. i < 64 \<and> 64 * w + i < length P \<and> P ! (64 * w + i) = c \<longrightarrow> bit m i) \<and>
        (\<forall>i j. bit m i \<and> j < length T \<and> in_window Bound j (64 * w + i) \<longrightarrow>
            64 * w + i < length P \<and> P ! (64 * w + i) = c)))"

lemma probe_word_bits:
  assumes ok: "index_block_ok PM P T Bound"
    and len: "length (P_flags flagged) = ceil_div (length P) 64"
    and w: "w < ceil_div (length P) 64" and j: "j < length T"
    and msk: "\<And>i. bit msk i \<longleftrightarrow> i < 64 \<and> window_lo Bound j \<le> 64 * w + i
                 \<and> 64 * w + i < window_hi (length P) Bound j"
  shows "\<exists>x. probe_word PM c flagged w msk = Inr x \<and>
     (\<forall>i. bit x i \<longleftrightarrow> i < 64 \<and> 64 * w + i < length P
                    \<and> cand P Bound (mw_set (P_flags flagged)) j c (64 * w + i))"
proof -
  from ok w obtain m where m: "PM w c = Inr m"
    and m1: "\<And>i. i < 64 \<Longrightarrow> 64 * w + i < length P \<Longrightarrow> P ! (64 * w + i) = c \<Longrightarrow> bit m i"
    and m2: "\<And>i j. bit m i \<Longrightarrow> j < length T \<Longrightarrow> in_window Bound j (64 * w + i) \<Longrightarrow>
            64 * w + i < length P \<and> P ! (64 * w + i) = c"
    unfolding index_block_ok_def by blast
  have run: "probe_word PM c flagged w msk = Inr (m AND msk AND NOT (P_flags flagged ! w))"
    using w len by (simp add: probe_word_def m vec_get_def)
  have fl: "64 * w + i \<in> mw_set (P_flags flagged) \<longleftrightarrow> bit (P_flags flagged ! w) i" if "i < 64" for i
    using that w len by (simp add: mw_set_def)
  have "bit (m AND msk AND NOT (P_flags flagged ! w)) i \<longleftrightarrow> i < 64 \<and> 64 * w + i < length P
                    \<and> cand P Bound (mw_set (P_flags flagged)) j c (64 * w + i)" for i
  proof (cases "i < 64")
    case False
    then show ?thesis by (auto dest: bit_imp_le_length)
  next
    case True
    note iw = in_window_lo_hi [of "64 * w + i" "length P" Bound j]
    show ?thesis
      unfolding bit_and_iff bit_not_iff cand_def msk
      using True fl [OF True] m1 [OF True] m2 [of i j] j iw
      by auto
  qed
  with run show ?thesis by blast
qed

lemma scan_words_spec:
  assumes probes: "\<And>w. a \<le> w \<Longrightarrow> w < stop \<Longrightarrow>
        \<exists>x. probe_word PM c flagged w (- 1) = Inr x \<and>
            (\<forall>i. bit x i \<longleftrightarrow> i < 64 \<and> 64 * w + i < n \<and> Q (64 * w + i))"
    and before: "\<And>q. q < 64 * a \<Longrightarrow> q < n \<Longrightarrow> \<not> Q q"
    and rng: "stop \<le> length (P_flags flagged)" "j div 64 < length (T_flags flagged)"
    and le: "a \<le> stop"
  shows "scan_words PM c flagged j a stop =
     (if \<exists>q. q < 64 * stop \<and> q < n \<and> Q q
      then Inr (Inl (ref_mark flagged j (List.find Q [0..<n])))
      else Inr (Inr stop))"
  using probes before le
proof (induction "stop - a" arbitrary: a)
  case 0
  then have "a = stop" by simp
  then show ?case
    using "0.prems"(2) by (auto simp: scan_words.simps [of _ _ _ _ stop stop])
next
  case (Suc d)
  then have lt: "a < stop" by simp
  from Suc.prems(1) [OF order_refl lt] obtain x where
    x: "probe_word PM c flagged a (- 1) = Inr x"
    and bits: "\<And>i. bit x i \<longleftrightarrow> i < 64 \<and> 64 * a + i < n \<and> Q (64 * a + i)"
    by blast
  show ?case
  proof (cases "x = 0")
    case False
    from False obtain k where "bit x k" by (auto simp: word_eq_0_bits)
    with bits have "64 * a + k < 64 * stop \<and> 64 * a + k < n \<and> Q (64 * a + k)"
      using lt by auto
    then have ex: "\<exists>q. q < 64 * stop \<and> q < n \<and> Q q" by blast
    have "a < length (P_flags flagged)" using lt rng(1) by simp
    from mark_flags_found [of x a n Q flagged j, OF bits False Suc.prems(2) this rng(2)]
    show ?thesis
      using False lt ex by (simp add: scan_words.simps [of _ _ _ _ a stop] x)
  next
    case True
    have before': "\<not> Q q" if "q < 64 * (a + 1)" "q < n" for q
    proof (cases "q < 64 * a")
      case True
      then show ?thesis using Suc.prems(2) that by simp
    next
      case False
      define i where "i = q - 64 * a"
      have "q = 64 * a + i" "i < 64" using False that by (simp_all add: i_def)
      with bits [of i] \<open>x = 0\<close> that show ?thesis by auto
    qed
    have d: "d = stop - (a + 1)" using Suc.hyps(2) by simp
    have "scan_words PM c flagged j (a + 1) stop =
       (if \<exists>q. q < 64 * stop \<and> q < n \<and> Q q
        then Inr (Inl (ref_mark flagged j (List.find Q [0..<n])))
        else Inr (Inr stop))"
      using Suc.prems(1) lt before' by (intro Suc.hyps(1) [OF d]) auto
    then show ?thesis
      using True lt by (simp add: scan_words.simps [of _ _ _ _ a stop] x)
  qed
qed

lemma scan_words4_scan_words:
  assumes probes: "\<And>w. a \<le> w \<Longrightarrow> w < stop \<Longrightarrow> \<exists>x. probe_word PM c flagged w (- 1) = Inr x"
  shows "ebind (scan_words4 PM c flagged j a stop)
           (\<lambda>r. case r of Inl f \<Rightarrow> Inr (Inl f) | Inr w \<Rightarrow> scan_words PM c flagged j w stop)
         = scan_words PM c flagged j a stop"
  using probes
proof (induction "stop - a" arbitrary: a rule: less_induct)
  case less
  show ?case
  proof (cases "a + 3 < stop")
    case False
    then show ?thesis
      by (simp add: scan_words4.simps [of _ _ _ _ a stop])
  next
    case True
    obtain x0 where x0: "probe_word PM c flagged a (- 1) = Inr x0"
      using less.prems [of a] True by auto
    obtain x1 where x1: "probe_word PM c flagged (a + 1) (- 1) = Inr x1"
      using less.prems [of "a + 1"] True by auto
    obtain x2 where x2: "probe_word PM c flagged (a + 2) (- 1) = Inr x2"
      using less.prems [of "a + 2"] True by auto
    obtain x3 where x3: "probe_word PM c flagged (a + 3) (- 1) = Inr x3"
      using less.prems [of "a + 3"] True by auto
    have IH: "ebind (scan_words4 PM c flagged j (a + 4) stop)
           (\<lambda>r. case r of Inl f \<Rightarrow> Inr (Inl f) | Inr w \<Rightarrow> scan_words PM c flagged j w stop)
         = scan_words PM c flagged j (a + 4) stop"
      using True less.prems by (intro less.hyps) auto
    have s0: "scan_words PM c flagged j a stop =
        (if x0 \<noteq> 0 then ebind (mark_flags flagged a x0 j 1) (\<lambda>f. Inr (Inl f))
         else scan_words PM c flagged j (a + 1) stop)"
      using True by (simp add: scan_words.simps [of _ _ _ _ a stop] x0)
    have s1: "scan_words PM c flagged j (a + 1) stop =
        (if x1 \<noteq> 0 then ebind (mark_flags flagged (a + 1) x1 j 1) (\<lambda>f. Inr (Inl f))
         else scan_words PM c flagged j (a + 2) stop)"
      using True x1 by (subst scan_words.simps) (simp add: eval_nat_numeral)
    have s2: "scan_words PM c flagged j (a + 2) stop =
        (if x2 \<noteq> 0 then ebind (mark_flags flagged (a + 2) x2 j 1) (\<lambda>f. Inr (Inl f))
         else scan_words PM c flagged j (a + 3) stop)"
      using True x2 by (subst scan_words.simps) (simp add: eval_nat_numeral)
    have s3: "scan_words PM c flagged j (a + 3) stop =
        (if x3 \<noteq> 0 then ebind (mark_flags flagged (a + 3) x3 j 1) (\<lambda>f. Inr (Inl f))
         else scan_words PM c flagged j (a + 4) stop)"
      using True x3 by (subst scan_words.simps) (simp add: eval_nat_numeral)
    have e: "ebind (ebind m (\<lambda>f. Inr (Inl f)))
           (\<lambda>r. case r of Inl f \<Rightarrow> Inr (Inl f) | Inr w \<Rightarrow> scan_words PM c flagged j w stop)
         = ebind m (\<lambda>f. Inr (Inl f))" for m :: "error + FlaggedCharsMultiword"
      by (cases m) simp_all
    show ?thesis
      unfolding s0 s1 s2 s3
      using True IH e x0 x1 x2 x3
      by (subst scan_words4.simps) (simp add: eval_nat_numeral)
  qed
qed

lemma find_upt_None_intro: "(\<And>q. q < n \<Longrightarrow> \<not> Q q) \<Longrightarrow> List.find Q [0..<n] = None"
  by (simp add: find_upt_None)

lemma ceil_div_64_less: "w < ceil_div n 64 \<longleftrightarrow> 64 * w < n"
proof (cases "n mod 64 = 0")
  case True
  then have "n = 64 * (n div 64)" by presburger
  then show ?thesis unfolding ceil_div_def using True by auto
next
  case False
  have "n = 64 * (n div 64) + n mod 64" by simp
  moreover have "n mod 64 < 64" by simp
  ultimately have "w < n div 64 + 1 \<longleftrightarrow> 64 * w < n" using False by linarith
  then show ?thesis unfolding ceil_div_def using False by simp
qed

lemma bm_inv_words_pos:
  assumes B: "0 \<le> Bound" and inv: "bm_inv P_size Bound j BM"
    and fw: "window_lo Bound j div 64 < ceil_div P_size 64"
  shows "1 \<le> words BM"
proof -
  from inv obtain lw where
    ew: "empty_words BM = window_lo Bound j div 64"
    and sum: "empty_words BM + words BM = lw + 1"
    and lw: "window_hi P_size Bound j \<le> 64 * lw + 64"
    unfolding bm_inv_def by blast
  have "64 * (window_lo Bound j div 64) < window_hi P_size Bound j"
  proof (cases "int P_size \<le> int j + Bound + 1")
    case True
    then have "window_hi P_size Bound j = P_size" by (simp add: window_hi_def min_def)
    then show ?thesis using fw by (simp add: ceil_div_64_less)
  next
    case False
    then have "int (window_hi P_size Bound j) = int j + Bound + 1"
      using B by (simp add: window_hi_def min_def)
    moreover have "int (window_lo Bound j) \<le> int j"
      using B by (simp add: window_lo_def)
    moreover have "64 * (window_lo Bound j div 64) \<le> window_lo Bound j" by simp
    ultimately show ?thesis using B by linarith
  qed
  with lw have "window_lo Bound j div 64 < lw + 1" by linarith
  with ew sum show ?thesis by linarith
qed

lemma flag_similar_characters_step_fails:
  assumes inv: "bm_inv (length P) Bound j BM"
    and len: "length (P_flags flagged) = ceil_div (length P) 64"
    and fw: "\<not> window_lo Bound j div 64 < ceil_div (length P) 64"
  shows "\<exists>e. flag_similar_characters_step PM c flagged j BM = Inl e"
proof -
  from inv have ew: "empty_words BM = window_lo Bound j div 64"
    and fm: "\<And>i. bit (first_mask BM) i \<longleftrightarrow> i < 64 \<and> window_lo Bound j mod 64 \<le> i"
    unfolding bm_inv_def by blast+
  have "bit (first_mask BM) 63" unfolding fm
    using pos_mod_bound [of 64 "window_lo Bound j"] by simp
  then have nz: "first_mask BM \<noteq> 0" by auto
  have p: "\<exists>e. probe_word PM c flagged (empty_words BM) msk = Inl e" for msk
    using fw len ew by (cases "PM (empty_words BM) c") (simp_all add: probe_word_def vec_get_def)
  show ?thesis
  proof (cases "words BM = 1")
    case True
    from p obtain e where "probe_word PM c flagged (empty_words BM)
        (last_mask BM AND first_mask BM) = Inl e" by blast
    then show ?thesis using True by (simp add: flag_similar_characters_step_def Let_def)
  next
    case False
    from p obtain e where "probe_word PM c flagged (empty_words BM) (first_mask BM) = Inl e" by blast
    then show ?thesis using False nz by (simp add: flag_similar_characters_step_def Let_def)
  qed
qed

section \<open>Final scoring\<close>

text \<open>
  C2 (as amended). A call of \<open>jaro_similarity\<close> that reaches the final
  scoring with common-character count \<open>C > 0\<close> and raw transposition count
  \<open>Tr\<close> computes, in double arithmetic and in the order of the code,
  \<open>(C / P_len + C / T_len + (C - Tr div 2) / C) / 3\<close> over the original
  lengths, and returns that value when it is at least the cutoff and 0
  otherwise.
\<close>

theorem jaro_similarity_score_thresholded:
  assumes "jaro_similarity_flagging P T score_cutoff = Inr (Inr (C, Tr))" and "C > 0"
  shows "jaro_similarity P T score_cutoff =
     Inr (let c = double_of_int (int C);
              Sim = d_div
                (d_add
                  (d_add
                    (d_add (Finite 0) (d_div c (double_of_int (int (length P)))))
                    (d_div c (double_of_int (int (length T)))))
                  (d_div (d_sub c (double_of_int (int (Tr div 2)))) c))
                (Finite 3)
          in if d_ge Sim score_cutoff then Sim else Finite 0)"
  using assms
  by (simp add: jaro_similarity_def ebind_def jaro_final_score_def
      jaro_calculate_similarity_def Let_def)

lemma martha_score:
  "jaro_calculate_similarity 6 6 6 2 = Finite (8506799296144271 / 9007199254740992)"
  by code_simp

lemma martha_flagging_0:
  "jaro_similarity_flagging [77,65,82,84,72,65] [77,65,82,72,84,65] (Finite 0) = Inr (Inr (6, 2))"
  by code_simp

lemma martha_flagging_95:
  "jaro_similarity_flagging [77,65,82,84,72,65] [77,65,82,72,84,65]
     (Finite (4278419646001971 / 4503599627370496)) = Inr (Inr (6, 2))"
  by code_simp

lemma double_95: "round_double (19 / 20) = Finite (4278419646001971 / 4503599627370496)"
  by code_simp

theorem jaro_similarity_score_thresholded_witness:
  "jaro_similarity_flagging [77,65,82,84,72,65] [77,65,82,72,84,65] (Finite 0) = Inr (Inr (6, 2)) \<and>
   (6::nat) > 0 \<and>
   jaro_similarity [77,65,82,84,72,65] [77,65,82,72,84,65] (Finite 0)
     = Inr (Finite (8506799296144271 / 9007199254740992))"
proof -
  note h = martha_flagging_0
  have v: "jaro_calculate_similarity (int (length [77,65,82,84,72,65::int]))
      (int (length [77,65,82,72,84,65::int])) 6 2 = Finite (8506799296144271 / 9007199254740992)"
    using martha_score by simp
  from jaro_similarity_score_thresholded [OF h] have
    "jaro_similarity [77,65,82,84,72,65] [77,65,82,72,84,65] (Finite 0) =
       Inr (let Sim = jaro_calculate_similarity (int (length [77,65,82,84,72,65::int]))
                (int (length [77,65,82,72,84,65::int])) 6 2
            in if d_ge Sim (Finite 0) then Sim else Finite 0)"
    by (simp add: jaro_calculate_similarity_def Let_def)
  then have "jaro_similarity [77,65,82,84,72,65] [77,65,82,72,84,65] (Finite 0)
     = Inr (Finite (8506799296144271 / 9007199254740992))"
    unfolding v by simp
  with h show ?thesis by simp
qed

text \<open>
  C2 as stated fails: MARTHA against MARHTA with the cutoff 0.95 (as a
  double) reaches the final scoring with \<open>C = 6\<close> and two raw
  transpositions, the formula gives 0.9444444444444445, and the value
  returned is 0.
\<close>

theorem jaro_similarity_score_counterexample:
  "jaro_similarity_flagging [77,65,82,84,72,65] [77,65,82,72,84,65] (round_double (19 / 20))
     = Inr (Inr (6, 2)) \<and>
   jaro_similarity [77,65,82,84,72,65] [77,65,82,72,84,65] (round_double (19 / 20))
     = Inr (Finite 0) \<and>
   jaro_calculate_similarity 6 6 6 2 = Finite (8506799296144271 / 9007199254740992)"
proof -
  have "jaro_similarity [77,65,82,84,72,65] [77,65,82,72,84,65]
      (Finite (4278419646001971 / 4503599627370496)) = Inr (Finite 0)"
    using martha_score
    by (simp add: jaro_similarity_def martha_flagging_95 jaro_final_score_def)
  then show ?thesis
    unfolding double_95 using martha_flagging_95 martha_score by simp
qed

section \<open>Word-path flagger\<close>

text \<open>
  C4 (as amended). For a pattern and a text of length at most 64 and an
  \<open>int\<close> \<open>Bound\<close> with \<open>- 1 \<le> Bound < INT_MAX\<close> and the asserted
  relation, the word-path flagger returns a flag pair. It visits the text
  positions left to right: iteration \<open>n\<close> is one step with the growing
  mask while \<open>n < Bound\<close> and with the shifting mask thereafter. Before
  iteration \<open>n\<close> the bound mask holds exactly the positions \<open>p < 64\<close>
  with \<open>n - Bound \<le> p \<le> n + Bound\<close>, and \<open>P_flag\<close> and \<open>T_flag\<close> are
  exactly the reference flag sets after \<open>n\<close> text positions: each position
  flags the lowest unflagged reference position with its symbol inside the
  window, and itself iff there is one.
\<close>

theorem flag_similar_characters_word_reference:
  assumes "length P \<le> 64" and "length T \<le> 64"
    and "sint Bound > int (length P) \<or> int (length P) - sint Bound \<le> int (length T)"
    and "- 1 \<le> sint Bound" and "sint Bound < 2147483647"
  shows "(\<exists>flagged. flag_similar_characters_word (PatternMatchVector P) P T Bound = Inr flagged \<and>
            flag_set (P_flag flagged) = fst (reference_flags P T (sint Bound) (length T)) \<and>
            flag_set (T_flag flagged) = snd (reference_flags P T (sint Bound) (length T))) \<and>
         flag_similar_characters_word (PatternMatchVector P) P T Bound =
            ebind (flag_word_run (PatternMatchVector P) T (sint Bound) (length T)) (\<lambda>s. Inr (fst s)) \<and>
         (\<forall>n\<le>length T. \<exists>flagged BoundMask.
            flag_word_run (PatternMatchVector P) T (sint Bound) n = Inr (flagged, BoundMask) \<and>
            flag_set (P_flag flagged) = fst (reference_flags P T (sint Bound) n) \<and>
            flag_set (T_flag flagged) = snd (reference_flags P T (sint Bound) n) \<and>
            (\<forall>p. bit BoundMask p \<longleftrightarrow>
                 p < 64 \<and> int n - sint Bound \<le> int p \<and> int p \<le> int n + sint Bound)) \<and>
         (\<forall>n<length T. flag_word_run (PatternMatchVector P) T (sint Bound) (Suc n) =
            ebind (flag_word_run (PatternMatchVector P) T (sint Bound) n)
              (flag_word_iter (PatternMatchVector P) T (int n < sint Bound) n))"
proof (intro conjI allI impI)
  have ok: "index_word_ok (PatternMatchVector P) P T (sint Bound)"
    using assms(1) by (rule index_word_ok_PatternMatchVector)
  show "\<exists>flagged. flag_similar_characters_word (PatternMatchVector P) P T Bound = Inr flagged \<and>
            flag_set (P_flag flagged) = fst (reference_flags P T (sint Bound) (length T)) \<and>
            flag_set (T_flag flagged) = snd (reference_flags P T (sint Bound) (length T))"
    using flag_similar_characters_word_correct [OF ok assms] .
  show "flag_similar_characters_word (PatternMatchVector P) P T Bound =
            ebind (flag_word_run (PatternMatchVector P) T (sint Bound) (length T)) (\<lambda>s. Inr (fst s))"
    using assms(1,2,3,5) by (rule flag_similar_characters_word_run)
  show "\<exists>flagged BoundMask.
            flag_word_run (PatternMatchVector P) T (sint Bound) n = Inr (flagged, BoundMask) \<and>
            flag_set (P_flag flagged) = fst (reference_flags P T (sint Bound) n) \<and>
            flag_set (T_flag flagged) = snd (reference_flags P T (sint Bound) n) \<and>
            (\<forall>p. bit BoundMask p \<longleftrightarrow>
                 p < 64 \<and> int n - sint Bound \<le> int p \<and> int p \<le> int n + sint Bound)"
    if "n \<le> length T" for n
    using flag_word_run_inv [OF ok assms(1,2) that assms(4)]
    by (auto simp: word_inv_def in_window_def)
  show "flag_word_run (PatternMatchVector P) T (sint Bound) (Suc n) =
            ebind (flag_word_run (PatternMatchVector P) T (sint Bound) n)
              (flag_word_iter (PatternMatchVector P) T (int n < sint Bound) n)"
    if "n < length T" for n
    using that by (rule flag_word_run_Suc)
qed

theorem flag_similar_characters_word_reference_witness:
  "length [1, 2, 3 :: int] \<le> 64 \<and> length [2, 1, 3 :: int] \<le> 64 \<and>
   int (length [1, 2, 3 :: int]) - sint (1 :: 32 word) \<le> int (length [2, 1, 3 :: int]) \<and>
   - 1 \<le> sint (1 :: 32 word) \<and> sint (1 :: 32 word) < 2147483647 \<and>
   (\<exists>flagged. flag_similar_characters_word (PatternMatchVector [1, 2, 3]) [1, 2, 3] [2, 1, 3] 1
        = Inr flagged \<and>
      flag_set (P_flag flagged)
        = fst (reference_flags [1, 2, 3] [2, 1, 3] (sint (1 :: 32 word)) (length [2, 1, 3 :: int])) \<and>
      flag_set (T_flag flagged)
        = snd (reference_flags [1, 2, 3] [2, 1, 3] (sint (1 :: 32 word)) (length [2, 1, 3 :: int])))"
proof -
  have a: "length [1, 2, 3 :: int] \<le> 64" and b: "length [2, 1, 3 :: int] \<le> 64"
    and c: "sint (1 :: 32 word) > int (length [1, 2, 3 :: int]) \<or>
        int (length [1, 2, 3 :: int]) - sint (1 :: 32 word) \<le> int (length [2, 1, 3 :: int])"
    and c': "int (length [1, 2, 3 :: int]) - sint (1 :: 32 word) \<le> int (length [2, 1, 3 :: int])"
    and d: "- 1 \<le> sint (1 :: 32 word)" and e: "sint (1 :: 32 word) < 2147483647"
    by simp_all
  from flag_similar_characters_word_reference [OF a b c d e]
  have "\<exists>flagged. flag_similar_characters_word (PatternMatchVector [1, 2, 3]) [1, 2, 3] [2, 1, 3] 1
        = Inr flagged \<and>
      flag_set (P_flag flagged)
        = fst (reference_flags [1, 2, 3] [2, 1, 3] (sint (1 :: 32 word)) (length [2, 1, 3 :: int])) \<and>
      flag_set (T_flag flagged)
        = snd (reference_flags [1, 2, 3] [2, 1, 3] (sint (1 :: 32 word)) (length [2, 1, 3 :: int]))"
    by (rule conjunct1)
  with a b c' d e show ?thesis
    by (intro conjI)
qed

text \<open>
  C4 as stated fails for a \<open>Bound\<close> outside that range although the
  lengths and the asserted relation are as the claim asks: at
  \<open>Bound = INT_MAX\<close> the sum \<open>Bound + 1\<close> overflows, and at
  \<open>Bound = - 2\<close> the mask is built by a shift by \<open>- 1\<close>; neither run
  produces flags.
\<close>

theorem flag_similar_characters_word_counterexample:
  "length [1, 2, 3 :: int] \<le> 64 \<and>
   sint (2147483647 :: 32 word) > int (length [1, 2, 3 :: int]) \<and>
   flag_similar_characters_word (PatternMatchVector [1, 2, 3]) [1, 2, 3] [1, 2, 3] 2147483647
     = Inl UndefinedBehaviour \<and>
   length [5 :: int] \<le> 64 \<and> length [5, 5, 5 :: int] \<le> 64 \<and>
   int (length [5 :: int]) - sint (- 2 :: 32 word) \<le> int (length [5, 5, 5 :: int]) \<and>
   flag_similar_characters_word (PatternMatchVector [5]) [5] [5, 5, 5] (- 2)
     = Inl UndefinedBehaviour"
  by code_simp

section \<open>Reachability of the flaggers' assertions\<close>

lemma common_prefix_length_replicate:
  "common_prefix_length (replicate n x @ xs) (replicate n x @ ys) = n + common_prefix_length xs ys"
  by (induction n) simp_all

lemma narrowed_bound_huge: "sint (2147483648 :: 32 word) = - 2147483648"
  by simp

lemma length_filter_huge: "jaro_length_filter 4294967298 4294967298 (Finite 0)"
  by code_simp

text \<open>
  C10 fails on the code. Two sequences of \<open>2 ^ 32 + 2\<close> symbols that
  share their first \<open>2 ^ 32\<close> symbols pass the filters with
  \<open>Bound = 2 ^ 31\<close>; the prefix is stripped, the rests \<open>[1, 2]\<close> and
  \<open>[3, 4]\<close> go to the word path with \<open>static_cast<int>(Bound) = INT_MIN\<close>,
  and the assertion \<open>Bound > P.size() || P.size() - Bound <= T.size()\<close> of
  the word-path flagger fails.
\<close>

theorem jaro_similarity_assertion_reached:
  "jaro_similarity (replicate 4294967296 0 @ [1, 2]) (replicate 4294967296 0 @ [3, 4]) (Finite 0)
     = Inl AssertionFailed"
proof -
  define P where "P = replicate 4294967296 (0 :: int) @ [1, 2]"
  define T where "T = replicate 4294967296 (0 :: int) @ [3, 4]"
  have len: "int (length P) = 4294967298" "int (length T) = 4294967298"
    by (simp_all add: P_def T_def)
  have ne: "P \<noteq> []" "T \<noteq> []" by (simp_all add: P_def T_def)
  have b: "jaro_bounds_range P T = (2147483648, P, T)"
    by (simp add: jaro_bounds_range_def len Let_def)
  have cp: "common_prefix_length P T = 4294967296"
    unfolding P_def T_def common_prefix_length_replicate by simp
  have r: "remove_common_prefix P T = (4294967296, [1, 2], [3, 4])"
    unfolding remove_common_prefix_def cp Let_def by (simp add: P_def T_def)
  have w: "flag_similar_characters_word PM [1, 2] [3, 4] 2147483648 = Inl AssertionFailed"
    for PM
    by (simp add: flag_similar_characters_word_def narrowed_bound_huge)
  have g: "\<not> d_gt (Finite 0) (Finite 1)" by (simp add: d_gt_def)
  have "jaro_similarity_flagging P T (Finite 0) = Inl AssertionFailed"
    unfolding jaro_similarity_flagging_def Let_def len
    using g length_filter_huge by (simp add: b r w)
  then show ?thesis
    unfolding P_def T_def by (simp add: jaro_similarity_def)
qed

end
